theory Spec2Isabelle
  imports Main "HOL-Library.Char_ord" "HOL-Library.List_Lexorder" "HOL-Library.Product_Lexorder"
begin

section \<open>Values read from JSON, and Python's errors\<close>

text \<open>
  \<^verbatim>\<open>HarvardResults.__init__\<close> reads the processing results with \<^verbatim>\<open>json.load\<close>, so a raw
  record is an arbitrary JSON value. Numbers are never inspected by the code modelled
  here (they are only told apart from strings, lists and objects), so a number is kept
  as its literal. An object is an association list in the order of the file; Python's
  \<^verbatim>\<open>dict\<close> keeps that order.
\<close>

datatype json =
    JNull
  | JBool bool
  | JNum string
  | JStr string
  | JArr "json list"
  | JObj "(string \<times> json) list"

datatype error = KeyError | TypeError | AttributeError | NotModelled

text \<open>
  \<open>NotModelled\<close> is not an error of Python: it marks the one place where the model
  stops, a subject or object name that is not a string (see \<open>reify_relations\<close>).
\<close>

subsection \<open>Python's dict operations on association lists\<close>

text \<open>
  A \<^verbatim>\<open>dict\<close> is modelled as an association list with distinct keys, in insertion order.
  \<^verbatim>\<open>d.setdefault(k, v)\<close> leaves a present key where it is and puts a new key last.
\<close>

definition setdefault :: "'k \<Rightarrow> 'v \<Rightarrow> ('k \<times> 'v) list \<Rightarrow> ('k \<times> 'v) list" where
  "setdefault k d m = (if k \<in> fst ` set m then m else m @ [(k, d)])"

text \<open>In-place change of the value stored under a key (nothing happens for a missing key).\<close>

fun modify :: "'k \<Rightarrow> ('v \<Rightarrow> 'v) \<Rightarrow> ('k \<times> 'v) list \<Rightarrow> ('k \<times> 'v) list" where
  "modify k f [] = []"
| "modify k f (p # m) = (if fst p = k then (k, f (snd p)) # m else p # modify k f m)"

text \<open>\<^verbatim>\<open>d.setdefault(k, []).extend(xs)\<close>; with \<open>xs = [x]\<close> it is \<^verbatim>\<open>d.setdefault(k, []).append(x)\<close>.\<close>

definition extend_at :: "'k \<Rightarrow> 'v list \<Rightarrow> ('k \<times> 'v list) list \<Rightarrow> ('k \<times> 'v list) list" where
  "extend_at k xs m = modify k (\<lambda>old. old @ xs) (setdefault k [] m)"

text \<open>\<^verbatim>\<open>x[key]\<close> for a string key: only a dict can be subscripted by a string.\<close>

fun subscript :: "json \<Rightarrow> string \<Rightarrow> error + json" where
  "subscript (JObj kvs) k = (case map_of kvs k of None \<Rightarrow> Inl KeyError | Some v \<Rightarrow> Inr v)"
| "subscript _ k = Inl TypeError"

text \<open>\<^verbatim>\<open>x.get(key)\<close>: only a dict has the method; a missing key gives \<^verbatim>\<open>None\<close>.\<close>

fun py_get :: "json \<Rightarrow> string \<Rightarrow> error + json" where
  "py_get (JObj kvs) k = Inr (case map_of kvs k of None \<Rightarrow> JNull | Some v \<Rightarrow> v)"
| "py_get _ k = Inl AttributeError"

text \<open>\<^verbatim>\<open>for e in x\<close>: a list gives its elements, a dict its keys, a string its characters.\<close>

fun py_iter :: "json \<Rightarrow> error + json list" where
  "py_iter (JArr xs) = Inr xs"
| "py_iter (JObj kvs) = Inr (map (\<lambda>kv. JStr (fst kv)) kvs)"
| "py_iter (JStr s) = Inr (map (\<lambda>c. JStr [c]) s)"
| "py_iter _ = Inl TypeError"

text \<open>\<^verbatim>\<open>xs[:n]\<close>: a negative \<open>n\<close> counts from the end.\<close>

definition slice_to :: "int \<Rightarrow> 'a list \<Rightarrow> 'a list" where
  "slice_to n xs = (if 0 \<le> n then take (nat n) xs else take (length xs - nat (- n)) xs)"

section \<open>The relation types\<close>

definition RELTYPES :: "(string \<times> (string \<times> string)) list" where
  "RELTYPES =
     [(''Activation'', (''activates'', ''activator'')),
      (''Inhibition'', (''inhibits'', ''inhibitor'')),
      (''IncreaseAmount'', (''increases'', ''increaser'')),
      (''DecreaseAmount'', (''decreases'', ''decreaser''))]"

text \<open>\<^verbatim>\<open>RELTYPES.get(reltype, (None, None))[1]\<close>\<close>

definition translate_reltype_into_role :: "string \<Rightarrow> string option" where
  "translate_reltype_into_role reltype =
     (case map_of RELTYPES reltype of None \<Rightarrow> None | Some ar \<Rightarrow> Some (snd ar))"

section \<open>Metadata.get_sha\<close>

text \<open>
  \<^verbatim>\<open>Metadata.pmid2sha\<close> is a dict from strings to strings (both are fields of a CSV row).
  \<^verbatim>\<open>get_sha(pmid)\<close> is \<^verbatim>\<open>self.pmid2sha.get(pmid)\<close>: a list or a dict cannot be hashed, any
  other value that is not a string is no key of the dict.
\<close>

type_synonym metadata = "string \<rightharpoonup> string"

fun get_sha :: "metadata \<Rightarrow> json \<Rightarrow> error + string option" where
  "get_sha pmid2sha (JStr s) = Inr (pmid2sha s)"
| "get_sha pmid2sha (JArr xs) = Inl TypeError"
| "get_sha pmid2sha (JObj kvs) = Inl TypeError"
| "get_sha pmid2sha _ = Inr None"

section \<open>HarvardResults.collect_relations\<close>

text \<open>An evidence tuple \<^verbatim>\<open>(pmid, sha, text)\<close> and a relation \<^verbatim>\<open>(reltype, sub, obj, evidence)\<close>.\<close>

type_synonym evidence = "json \<times> string \<times> json"
type_synonym relation = "string \<times> json \<times> json \<times> evidence list"

definition target_relations :: "string list" where
  "target_relations = [''Activation'', ''Inhibition'', ''IncreaseAmount'', ''DecreaseAmount'']"

text \<open>
  An exception leaves the function at once: the rest of a computation runs only on a
  value.
\<close>

definition err_bind :: "error + 'a \<Rightarrow> ('a \<Rightarrow> error + 'b) \<Rightarrow> error + 'b" where
  "err_bind m f = (case m of Inl err \<Rightarrow> Inl err | Inr x \<Rightarrow> f x)"

text \<open>The loop over \<^verbatim>\<open>result['evidence']\<close> (lines 308 to 313).\<close>

fun collect_evidence :: "metadata \<Rightarrow> json list \<Rightarrow> error + evidence list" where
  "collect_evidence md [] = Inr []"
| "collect_evidence md (e # es) =
     err_bind (py_get e ''pmid'') (\<lambda>pmid.
     err_bind (py_get e ''text'') (\<lambda>text.
     err_bind (get_sha md pmid) (\<lambda>sha.
     err_bind (collect_evidence md es) (\<lambda>rest.
       Inr (case sha of None \<Rightarrow> rest | Some s \<Rightarrow> (pmid, s, text) # rest)))))"

text \<open>
  The \<^verbatim>\<open>try\<close> block of lines 301 to 306: a \<^verbatim>\<open>KeyError\<close> skips the record (\<open>None\<close>), any
  other error leaves the function.
\<close>

definition names_of :: "json \<Rightarrow> error + (json \<times> json)" where
  "names_of result =
     err_bind (subscript result ''subj'') (\<lambda>s.
     err_bind (subscript s ''name'') (\<lambda>sub.
     err_bind (subscript result ''obj'') (\<lambda>ob.
     err_bind (subscript ob ''name'') (\<lambda>obj. Inr (sub, obj)))))"

definition subj_obj_names :: "json \<Rightarrow> error + (json \<times> json) option" where
  "subj_obj_names result =
     (case names_of result of
        Inl err \<Rightarrow> (if err = KeyError then Inr None else Inl err)
      | Inr names \<Rightarrow> Inr (Some names))"

text \<open>
  Lines 307 to 316, for a record of one of the four types with both names: \<open>None\<close> when
  no evidence is left.
\<close>

definition collect_named :: "metadata \<Rightarrow> json \<Rightarrow> string \<Rightarrow> json \<Rightarrow> json \<Rightarrow> error + relation option" where
  "collect_named md result reltype sub obj =
     err_bind (subscript result ''evidence'') (\<lambda>ev.
     err_bind (py_iter ev) (\<lambda>es.
     err_bind (collect_evidence md es) (\<lambda>evidence.
       if evidence \<noteq> [] then Inr (Some (reltype, sub, obj, evidence)) else Inr None)))"

text \<open>
  One pass of the loop body: \<open>None\<close> when the record adds no relation.
  \<^verbatim>\<open>reltype not in target_relations\<close> compares with \<^verbatim>\<open>==\<close>: a value that is not a
  string equals none of the four names.
\<close>

definition collect_record :: "metadata \<Rightarrow> json \<Rightarrow> error + relation option" where
  "collect_record md result =
     err_bind (subscript result ''type'') (\<lambda>reltype.
       case reltype of
         JStr t \<Rightarrow>
           if t \<notin> set target_relations then Inr None
           else err_bind (subj_obj_names result) (\<lambda>names.
             case names of
               None \<Rightarrow> Inr None
             | Some (sub, obj) \<Rightarrow> collect_named md result t sub obj)
       | _ \<Rightarrow> Inr None)"

fun collect_loop :: "metadata \<Rightarrow> json list \<Rightarrow> error + relation list" where
  "collect_loop md [] = Inr []"
| "collect_loop md (result # results) =
     err_bind (collect_record md result) (\<lambda>r.
     err_bind (collect_loop md results) (\<lambda>rest.
       Inr (case r of None \<Rightarrow> rest | Some rel \<Rightarrow> rel # rest)))"

definition collect_relations :: "metadata \<Rightarrow> int \<Rightarrow> json list \<Rightarrow> error + relation list" where
  "collect_relations md n results = collect_loop md (slice_to n results)"

section \<open>reify\_relations\<close>

text \<open>
  The dict \<^verbatim>\<open>{'pmid': e[0], 'sha': e[1], 'text': e[2]}\<close> built for each evidence tuple.
\<close>

record evidence_item =
  item_pmid :: json
  item_sha :: string
  item_text :: json

type_synonym subjects = "(string \<times> evidence_item list) list"
type_synonym relobjs = "(string \<times> subjects) list"
type_synonym reified = "(string \<times> relobjs) list"

definition evidence_dict :: "evidence \<Rightarrow> evidence_item" where
  "evidence_dict e = \<lparr>item_pmid = fst e, item_sha = fst (snd e), item_text = snd (snd e)\<rparr>"

text \<open>\<^verbatim>\<open>"%s-%s" % (obj, role)\<close>: a string is printed as it is, \<^verbatim>\<open>None\<close> as \<^verbatim>\<open>None\<close>.\<close>

definition reified_name :: "string \<Rightarrow> string option \<Rightarrow> string" where
  "reified_name obj role = obj @ ''-'' @ (case role of None \<Rightarrow> ''None'' | Some r \<Rightarrow> r)"

text \<open>
  The body of the loop of lines 387 to 391, for a relation whose names are strings.
  \<^verbatim>\<open>rels[rel[0]]\<close> raises \<^verbatim>\<open>KeyError\<close> for a type that is no key of \<^verbatim>\<open>rels\<close>.
\<close>

definition reify_named :: "string \<Rightarrow> string \<Rightarrow> string \<Rightarrow> evidence list \<Rightarrow> reified \<Rightarrow> error + reified" where
  "reify_named reltype sub obj evidence rels =
     (let reified_rel = reified_name obj (translate_reltype_into_role reltype) in
      case map_of rels reltype of
        None \<Rightarrow> Inl KeyError
      | Some _ \<Rightarrow>
          Inr (modify reltype
                (\<lambda>ro. modify reified_rel (extend_at sub (map evidence_dict evidence))
                        (setdefault reified_rel [] ro))
                rels))"

text \<open>
  Python formats, hashes and compares a name that is not a string by rules of its own
  (and the sort of \<open>filter_relobjs\<close> needs the names of one key to be comparable); the
  model covers string names, as the data has them, and stops with \<open>NotModelled\<close>
  otherwise.
\<close>

fun reify_rel :: "relation \<Rightarrow> reified \<Rightarrow> error + reified" where
  "reify_rel (reltype, JStr sub, JStr obj, evidence) rels = reify_named reltype sub obj evidence rels"
| "reify_rel _ rels = Inl NotModelled"

fun reify_loop :: "relation list \<Rightarrow> reified \<Rightarrow> error + reified" where
  "reify_loop [] rels = Inr rels"
| "reify_loop (rel # relations) rels = err_bind (reify_rel rel rels) (reify_loop relations)"

text \<open>\<^verbatim>\<open>{ reltype: {} for reltype in RELTYPES }\<close>\<close>

definition empty_dicts :: "('t \<times> 'a) list \<Rightarrow> ('t \<times> ('k \<times> 'v) list) list" where
  "empty_dicts reltypes = map (\<lambda>kv. (fst kv, [])) reltypes"

definition reify_relations :: "relation list \<Rightarrow> error + reified" where
  "reify_relations relations = reify_loop relations (empty_dicts RELTYPES)"

section \<open>RelationImporter.filter\_relobjs\<close>

definition size_of :: "'a list list \<Rightarrow> nat" where
  "size_of subj_sentences = sum_list (map length subj_sentences)"

definition endswith :: "string \<Rightarrow> string \<Rightarrow> bool" where
  "endswith s suffix =
     (length suffix \<le> length s \<and> drop (length s - length suffix) s = suffix)"

definition is_big :: "'a list list \<Rightarrow> string \<Rightarrow> bool" where
  "is_big subj_sentences reltype =
     (let minimum_size = (if endswith reltype ''Amount'' then 25 else 100)
      in size_of subj_sentences \<ge> minimum_size)"

text \<open>The value \<^verbatim>\<open>{'size': ..., 'data': {...}}\<close> stored for a key that is kept.\<close>

record filtered_entry =
  entry_size :: nat
  entry_data :: subjects

type_synonym filtered = "(string \<times> (string \<times> filtered_entry) list) list"

text \<open>
  \<^verbatim>\<open>reversed(sorted([(len(v), k, v) for k, v in subjects.items()]))\<close>. Python compares the
  tuples by length, then by name; it would compare the evidence lists only for two
  equal names, and the keys of one dict differ. \<open>sort_key\<close> is stable, as \<^verbatim>\<open>sorted\<close> is;
  strings are ordered lexicographically by character code.
\<close>

definition subjects_sorted :: "subjects \<Rightarrow> (nat \<times> string \<times> evidence_item list) list" where
  "subjects_sorted subjects =
     rev (sort_key (\<lambda>t. (fst t, fst (snd t))) (map (\<lambda>kv. (length (snd kv), fst kv, snd kv)) subjects))"

text \<open>The loop of lines 542 and 543 over the first eight triples.\<close>

fun add_subjects :: "(nat \<times> string \<times> evidence_item list) list \<Rightarrow> subjects \<Rightarrow> subjects" where
  "add_subjects [] data = data"
| "add_subjects ((i, subj, val) # rest) data = add_subjects rest (extend_at subj val data)"

text \<open>Lines 540 to 543, on the dict \<^verbatim>\<open>self.filtered_rels[reltype]\<close>.\<close>

definition keep_relobj :: "string \<Rightarrow> subjects \<Rightarrow> (string \<times> filtered_entry) list \<Rightarrow> (string \<times> filtered_entry) list" where
  "keep_relobj rel_obj subjects fr =
     modify rel_obj
       (\<lambda>entry. entry\<lparr>entry_data := add_subjects (take 8 (subjects_sorted subjects)) (entry_data entry)\<rparr>)
       (setdefault rel_obj \<lparr>entry_size = size_of (map snd subjects), entry_data = []\<rparr> fr)"

text \<open>
  The inner loop (lines 536 to 543). \<^verbatim>\<open>self.filtered_rels[reltype]\<close> is evaluated only for
  a key that is big, and raises \<^verbatim>\<open>KeyError\<close> for a type that is not in \<^verbatim>\<open>RELTYPES\<close>.
\<close>

fun filter_relobjs_of :: "string \<Rightarrow> relobjs \<Rightarrow> filtered \<Rightarrow> error + filtered" where
  "filter_relobjs_of reltype [] filtered_rels = Inr filtered_rels"
| "filter_relobjs_of reltype ((rel_obj, subjects) # rest) filtered_rels =
     (if \<not> is_big (map snd subjects) reltype then filter_relobjs_of reltype rest filtered_rels
      else case map_of filtered_rels reltype of
        None \<Rightarrow> Inl KeyError
      | Some _ \<Rightarrow>
          filter_relobjs_of reltype rest (modify reltype (keep_relobj rel_obj subjects) filtered_rels))"

fun filter_loop :: "reified \<Rightarrow> filtered \<Rightarrow> error + filtered" where
  "filter_loop [] filtered_rels = Inr filtered_rels"
| "filter_loop ((reltype, ro) # rest) filtered_rels =
     err_bind (filter_relobjs_of reltype ro filtered_rels) (filter_loop rest)"

definition filter_relobjs :: "reified \<Rightarrow> error + filtered" where
  "filter_relobjs reified_rels = filter_loop reified_rels (empty_dicts RELTYPES)"

section \<open>RelationImporter.invert\_filtered\_relobjs\<close>

type_synonym inverted = "(string \<times> (string \<times> string) list) list"

text \<open>
  The three inner loops (lines 549 to 552) visit, for one type, every evidence item of
  every subject of every key, in order; each visit appends one pair.
\<close>

definition doc_pairs :: "(string \<times> filtered_entry) list \<Rightarrow> (string \<times> string \<times> string) list" where
  "doc_pairs fr =
     concat (map (\<lambda>(relobj, entry).
       concat (map (\<lambda>(subj, es).
         map (\<lambda>e. (item_sha e @ ''.json'', (relobj, subj))) es) (entry_data entry))) fr)"

fun add_pairs :: "(string \<times> string \<times> string) list \<Rightarrow> inverted \<Rightarrow> inverted" where
  "add_pairs [] inverted_rels = inverted_rels"
| "add_pairs ((fname, pair) # rest) inverted_rels = add_pairs rest (extend_at fname [pair] inverted_rels)"

text \<open>
  The outer loop runs over the types of \<^verbatim>\<open>self.reified_rels\<close> and reads
  \<^verbatim>\<open>self.filtered_rels[reltype]\<close>.
\<close>

fun invert_loop :: "string list \<Rightarrow> filtered \<Rightarrow> inverted \<Rightarrow> error + inverted" where
  "invert_loop [] filtered_rels inverted_rels = Inr inverted_rels"
| "invert_loop (reltype # rest) filtered_rels inverted_rels =
     (case map_of filtered_rels reltype of
        None \<Rightarrow> Inl KeyError
      | Some fr \<Rightarrow> invert_loop rest filtered_rels (add_pairs (doc_pairs fr) inverted_rels))"

definition invert_filtered_relobjs :: "reified \<Rightarrow> filtered \<Rightarrow> error + inverted" where
  "invert_filtered_relobjs reified_rels filtered_rels =
     invert_loop (map fst reified_rels) filtered_rels []"

text \<open>
  \<^verbatim>\<open>convert_file\<close> reads \<^verbatim>\<open>self.inverted_rels.get(fname, [])\<close> for the name of a file and
  collects the subjects of each key into the metadata of the document.
\<close>

definition file_pairs :: "inverted \<Rightarrow> string \<Rightarrow> (string \<times> string) list" where
  "file_pairs inverted_rels fname =
     (case map_of inverted_rels fname of None \<Rightarrow> [] | Some pairs \<Rightarrow> pairs)"

fun add_metadata :: "(string \<times> string) list \<Rightarrow> (string \<times> string list) list \<Rightarrow> (string \<times> string list) list" where
  "add_metadata [] md = md"
| "add_metadata ((relobj, subj) # rest) md = add_metadata rest (extend_at relobj [subj] md)"

definition convert_file :: "inverted \<Rightarrow> string \<Rightarrow> (string \<times> string list) list" where
  "convert_file inverted_rels fname = add_metadata (file_pairs inverted_rels fname) []"

section \<open>RelationImporter.convert\<close>

text \<open>
  The importer object: what \<^verbatim>\<open>__init__\<close> loads and the four attributes \<^verbatim>\<open>convert\<close>
  assigns (lines 511 to 514). Line 511 gives \<open>collect_relations\<close> no \<open>n\<close>, so the default
  \<open>n = 100000\<close> of line 289 applies; the \<open>n\<close> of \<^verbatim>\<open>convert\<close> itself only cuts the list
  of files written afterwards, which are outside the model.
\<close>

record importer =
  metadata :: metadata
  results :: "json list"
  relations :: "relation list"
  reified_rels :: reified
  filtered_rels :: filtered
  inverted_rels :: inverted

definition convert :: "importer \<Rightarrow> error + importer" where
  "convert self =
     err_bind (collect_relations (metadata self) 100000 (results self)) (\<lambda>rels.
     err_bind (reify_relations rels) (\<lambda>reified.
     err_bind (filter_relobjs reified) (\<lambda>filtered.
     err_bind (invert_filtered_relobjs reified filtered) (\<lambda>inverted.
       Inr (self\<lparr>relations := rels, reified_rels := reified,
                 filtered_rels := filtered, inverted_rels := inverted\<rparr>)))))"

section \<open>The shape of a raw record\<close>

text \<open>
  What \<open>collect_relations\<close> reads of a record without a check: the record is a dict with
  a \<^verbatim>\<open>type\<close>; for one of the four types, \<^verbatim>\<open>subj\<close> and \<^verbatim>\<open>obj\<close> are dicts where they are
  present, and a record with both names has a list \<^verbatim>\<open>evidence\<close> of dicts whose \<^verbatim>\<open>pmid\<close> can
  be hashed.
\<close>

definition pmid_hashable :: "json \<Rightarrow> bool" where
  "pmid_hashable e =
     (case py_get e ''pmid'' of
        Inr (JArr _) \<Rightarrow> False | Inr (JObj _) \<Rightarrow> False | Inr _ \<Rightarrow> True | Inl _ \<Rightarrow> False)"

definition mapping_or_absent :: "json \<Rightarrow> string \<Rightarrow> bool" where
  "mapping_or_absent result k =
     (case subscript result k of
        Inr (JObj _) \<Rightarrow> True | Inr _ \<Rightarrow> False | Inl err \<Rightarrow> err = KeyError)"

definition evidence_list_ok :: "json \<Rightarrow> bool" where
  "evidence_list_ok result =
     (case subscript result ''evidence'' of
        Inr (JArr es) \<Rightarrow> list_all pmid_hashable es | _ \<Rightarrow> False)"

definition has_names :: "json \<Rightarrow> bool" where
  "has_names result = (case names_of result of Inr _ \<Rightarrow> True | Inl _ \<Rightarrow> False)"

definition record_ok :: "json \<Rightarrow> bool" where
  "record_ok result =
     (case subscript result ''type'' of
        Inl _ \<Rightarrow> False
      | Inr (JStr t) \<Rightarrow>
          t \<in> set target_relations \<longrightarrow>
            mapping_or_absent result ''subj'' \<and> mapping_or_absent result ''obj'' \<and>
            (has_names result \<longrightarrow> evidence_list_ok result)
      | Inr _ \<Rightarrow> True)"

section \<open>Well-formed indexes and the closed form of the filter\<close>

text \<open>
  An association list stands for a \<^verbatim>\<open>dict\<close> when its keys are distinct. \<open>lookup2\<close> is the
  double subscript \<^verbatim>\<open>d[a][b]\<close> as a partial function.
\<close>

definition is_dict :: "('k \<times> 'v) list \<Rightarrow> bool" where
  "is_dict m = distinct (map fst m)"

definition lookup2 :: "('a \<times> ('b \<times> 'c) list) list \<Rightarrow> 'a \<Rightarrow> 'b \<Rightarrow> 'c option" where
  "lookup2 m a b = (case map_of m a of None \<Rightarrow> None | Some inner \<Rightarrow> map_of inner b)"

text \<open>A reified index all of whose three levels are dicts.\<close>

definition reified_ok :: "reified \<Rightarrow> bool" where
  "reified_ok idx = (is_dict idx \<and> list_all (\<lambda>tr. is_dict (snd tr) \<and> list_all (\<lambda>ks. is_dict (snd ks)) (snd tr)) idx)"

text \<open>
  What the loop body leaves for one key that is big, and what the inner loop leaves for
  one type, written without the loops; \<open>filter_entry_lookup\<close> below proves that
  \<open>filter_relobjs\<close> computes exactly this on dicts.
\<close>

definition kept_entry :: "subjects \<Rightarrow> filtered_entry" where
  "kept_entry subjects =
     \<lparr>entry_size = size_of (map snd subjects),
      entry_data = map snd (take 8 (subjects_sorted subjects))\<rparr>"

definition kept_relobjs :: "string \<Rightarrow> relobjs \<Rightarrow> (string \<times> filtered_entry) list" where
  "kept_relobjs reltype ro =
     map (\<lambda>ks. (fst ks, kept_entry (snd ks))) (filter (\<lambda>ks. is_big (map snd (snd ks)) reltype) ro)"

section \<open>What one evidence entry contributes\<close>



section \<open>Example inputs\<close>

text \<open>
  Five raw records: one with two evidence entries of which the resolver below knows the
  first only, one of a type that is not collected, one without a subject, one whose
  only evidence entry does not resolve, and one with 25 evidence entries that resolve.
\<close>

definition example_records :: "json list" where
  "example_records =
     [JObj [(''type'', JStr ''Activation''), (''subj'', JObj [(''name'', JStr ''IL12'')]),
            (''obj'', JObj [(''name'', JStr ''TNF'')]),
            (''evidence'', JArr [JObj [(''pmid'', JStr ''1''), (''text'', JStr ''x'')],
                                 JObj [(''pmid'', JStr ''2''), (''text'', JStr ''y'')]])],
      JObj [(''type'', JStr ''Complex'')],
      JObj [(''type'', JStr ''Inhibition''), (''obj'', JObj [(''name'', JStr ''TNF'')])],
      JObj [(''type'', JStr ''Inhibition''), (''subj'', JObj [(''name'', JStr ''IL12'')]),
            (''obj'', JObj [(''name'', JStr ''TNF'')]),
            (''evidence'', JArr [JObj [(''pmid'', JStr ''2''), (''text'', JStr ''y'')]])],
      JObj [(''type'', JStr ''IncreaseAmount''), (''subj'', JObj [(''name'', JStr ''IL6'')]),
            (''obj'', JObj [(''name'', JStr ''TNF'')]),
            (''evidence'',
               JArr (replicate 25 (JObj [(''pmid'', JStr ''1''), (''text'', JStr ''x'')])))]]"

definition example_metadata :: metadata where
  "example_metadata = [''1'' \<mapsto> ''s1'']"

text \<open>
  A reified index: a key with exactly 100 evidence items and one with 99 under
  \<^verbatim>\<open>Activation\<close>, a key with nine subjects of 1 to 9 items under \<^verbatim>\<open>IncreaseAmount\<close>, and
  under \<^verbatim>\<open>DecreaseAmount\<close> a key with two subjects tied at 12 items and a key with 24
  items; and the filtered index \<open>filter_relobjs\<close> computes from it.
\<close>

definition example_items :: "nat \<Rightarrow> string \<Rightarrow> evidence_item list" where
  "example_items n doc = replicate n \<lparr>item_pmid = JStr ''1'', item_sha = doc, item_text = JStr ''x''\<rparr>"

definition nine_subjects :: subjects where
  "nine_subjects =
     [(''a'', example_items 1 ''d1''), (''b'', example_items 2 ''d2''), (''c'', example_items 3 ''d3''),
      (''d'', example_items 4 ''d4''), (''e'', example_items 5 ''d5''), (''f'', example_items 6 ''d6''),
      (''g'', example_items 7 ''d7''), (''h'', example_items 8 ''d8''), (''i'', example_items 9 ''d9'')]"

definition tied_subjects :: subjects where
  "tied_subjects =
     [(''a'', example_items 12 ''d1''), (''c'', example_items 1 ''d2''), (''b'', example_items 12 ''d3'')]"

definition example_reified :: reified where
  "example_reified =
     [(''Activation'',
         [(''TNF-activator'', [(''IL12'', example_items 100 ''d1'')]),
          (''IL6-activator'', [(''IL1'', example_items 99 ''d2'')])]),
      (''Inhibition'', []),
      (''IncreaseAmount'', [(''TNF-increaser'', nine_subjects)]),
      (''DecreaseAmount'',
         [(''TNF-decreaser'', tied_subjects),
          (''IL6-decreaser'', [(''IL1'', example_items 24 ''d2'')])])]"

definition nine_entry :: filtered_entry where
  "nine_entry =
     \<lparr>entry_size = 45,
      entry_data =
        [(''i'', example_items 9 ''d9''), (''h'', example_items 8 ''d8''), (''g'', example_items 7 ''d7''),
         (''f'', example_items 6 ''d6''), (''e'', example_items 5 ''d5''), (''d'', example_items 4 ''d4''),
         (''c'', example_items 3 ''d3''), (''b'', example_items 2 ''d2'')]\<rparr>"

definition tied_entry :: filtered_entry where
  "tied_entry =
     \<lparr>entry_size = 25,
      entry_data =
        [(''b'', example_items 12 ''d3''), (''a'', example_items 12 ''d1''), (''c'', example_items 1 ''d2'')]\<rparr>"

definition example_filtered :: filtered where
  "example_filtered =
     [(''Activation'',
         [(''TNF-activator'',
           \<lparr>entry_size = 100, entry_data = [(''IL12'', example_items 100 ''d1'')]\<rparr>)]),
      (''Inhibition'', []),
      (''IncreaseAmount'', [(''TNF-increaser'', nine_entry)]),
      (''DecreaseAmount'', [(''TNF-decreaser'', tied_entry)])]"


definition collected_reified :: reified where
  "collected_reified =
     [(''Activation'', [(''TNF-activator'', [(''IL12'', example_items 1 ''s1'')])]),
      (''Inhibition'', []),
      (''IncreaseAmount'', [(''TNF-increaser'', [(''IL6'', example_items 25 ''s1'')])]),
      (''DecreaseAmount'', [])]"

definition collected_filtered :: filtered where
  "collected_filtered =
     [(''Activation'', []),
      (''Inhibition'', []),
      (''IncreaseAmount'',
         [(''TNF-increaser'',
           \<lparr>entry_size = 25, entry_data = [(''IL6'', example_items 25 ''s1'')]\<rparr>)]),
      (''DecreaseAmount'', [])]"

definition collected_inverted :: inverted where
  "collected_inverted = [(''s1.json'', replicate 25 (''TNF-increaser'', ''IL6''))]"




section \<open>Dict operations\<close>

lemma map_fst_modify [simp]: "map fst (modify k f m) = map fst m"
  by (induction m) auto

lemma modify_absent: "k \<notin> fst ` set m \<Longrightarrow> modify k f m = m"
  by (induction m) auto

lemma modify_append_new: "k \<notin> fst ` set m \<Longrightarrow> modify k f (m @ [(k, v)]) = m @ [(k, f v)]"
  by (induction m) auto

lemma map_of_modify:
  "map_of (modify k f m) k' = (if k' = k then map_option f (map_of m k) else map_of m k')"
  by (induction m) auto

lemma modify_modify: "modify k f (modify k g m) = modify k (\<lambda>v. f (g v)) m"
  by (induction m) auto

lemma modify_id: "modify k (\<lambda>v. v) m = m"
  by (induction m) auto

lemma set_modify:
  "p \<in> set (modify k f m) \<Longrightarrow> p \<in> set m \<or> (\<exists>v. (k, v) \<in> set m \<and> p = (k, f v))"
  by (induction m) (auto split: if_splits)

lemma extend_at_new: "k \<notin> fst ` set m \<Longrightarrow> extend_at k xs m = m @ [(k, xs)]"
  by (simp add: extend_at_def setdefault_def modify_append_new)

lemma extend_at_old: "k \<in> fst ` set m \<Longrightarrow> extend_at k xs m = modify k (\<lambda>old. old @ xs) m"
  by (simp add: extend_at_def setdefault_def)

lemma map_fst_extend_at:
  "map fst (extend_at k xs m) = (if k \<in> fst ` set m then map fst m else map fst m @ [k])"
  by (simp add: extend_at_def setdefault_def)

lemma map_of_extend_at:
  "map_of (extend_at k xs m) k' =
     (if k' = k then Some ((case map_of m k of None \<Rightarrow> [] | Some old \<Rightarrow> old) @ xs) else map_of m k')"
proof (cases "k \<in> fst ` set m")
  case True
  then obtain v where "map_of m k = Some v"
    by (metis domD dom_map_of_conv_image_fst)
  then show ?thesis using True by (simp add: extend_at_old map_of_modify)
next
  case False
  then have "map_of m k = None" by (simp add: map_of_eq_None_iff)
  then show ?thesis using False by (auto simp: extend_at_new map_add_def split: option.splits)
qed

section \<open>The filter on dicts\<close>

lemma add_subjects_fresh:
  "distinct (map (\<lambda>t. fst (snd t)) ts) \<Longrightarrow> (\<lambda>t. fst (snd t)) ` set ts \<inter> fst ` set d = {}
   \<Longrightarrow> add_subjects ts d = d @ map snd ts"
proof (induction ts arbitrary: d)
  case Nil
  then show ?case by simp
next
  case (Cons t ts)
  obtain i subj val where t: "t = (i, subj, val)" by (cases t)
  from Cons.prems have fresh: "subj \<notin> fst ` set d" by (auto simp: t)
  have "add_subjects ts (d @ [(subj, val)]) = (d @ [(subj, val)]) @ map snd ts"
    using Cons.prems by (intro Cons.IH) (auto simp: t)
  then show ?case by (simp add: t extend_at_new[OF fresh])
qed

lemma subjects_sorted_names:
  "set (map (\<lambda>t. fst (snd t)) (subjects_sorted subjects)) = fst ` set subjects"
  by (force simp: subjects_sorted_def)

lemma distinct_map_sort_key: "distinct (map g (sort_key f xs)) = distinct (map g xs)"
  by (simp add: distinct_map)

lemma distinct_subjects_sorted:
  "is_dict subjects \<Longrightarrow> distinct (map (\<lambda>t. fst (snd t)) (subjects_sorted subjects))"
  by (simp add: subjects_sorted_def is_dict_def distinct_map_sort_key comp_def flip: rev_map)

lemma keep_relobj_fresh:
  assumes "is_dict subjects" "rel_obj \<notin> fst ` set fr"
  shows "keep_relobj rel_obj subjects fr = fr @ [(rel_obj, kept_entry subjects)]"
proof -
  have "distinct (map (\<lambda>t. fst (snd t)) (take 8 (subjects_sorted subjects)))"
    using distinct_subjects_sorted[OF assms(1)] by (simp flip: take_map)
  then have "add_subjects (take 8 (subjects_sorted subjects)) [] = map snd (take 8 (subjects_sorted subjects))"
    using add_subjects_fresh[of "take 8 (subjects_sorted subjects)" "[]"] by simp
  then show ?thesis
    using assms(2) by (simp add: keep_relobj_def setdefault_def modify_append_new kept_entry_def)
qed


lemma filter_relobjs_of_eq:
  "filter_relobjs_of t ro f = Inr f' \<Longrightarrow>
   f' = modify t (\<lambda>fr. foldl (\<lambda>fr ks. if is_big (map snd (snd ks)) t then keep_relobj (fst ks) (snd ks) fr else fr) fr ro) f"
proof (induction ro arbitrary: f)
  case Nil
  then show ?case by (simp add: modify_id)
next
  case (Cons ks ro)
  obtain k sm where ks: "ks = (k, sm)" by (cases ks)
  show ?case
  proof (cases "is_big (map snd sm) t")
    case False
    with Cons show ?thesis by (simp add: ks)
  next
    case True
    with Cons.prems obtain fr where "map_of f t = Some fr"
      by (auto simp: ks split: option.splits)
    with Cons.prems True have "filter_relobjs_of t ro (modify t (keep_relobj k sm) f) = Inr f'"
      by (simp add: ks)
    from Cons.IH[OF this] show ?thesis using True by (simp add: ks modify_modify)
  qed
qed

lemma filter_relobjs_of_keys: "filter_relobjs_of t ro f = Inr f' \<Longrightarrow> map fst f' = map fst f"
  by (drule filter_relobjs_of_eq) simp

lemma foldl_keep_fresh:
  assumes "is_dict ro" "list_all (\<lambda>ks. is_dict (snd ks)) ro" "fst ` set ro \<inter> fst ` set fr = {}"
  shows "foldl (\<lambda>fr ks. if is_big (map snd (snd ks)) t then keep_relobj (fst ks) (snd ks) fr else fr) fr ro
         = fr @ kept_relobjs t ro"
  using assms
proof (induction ro arbitrary: fr)
  case Nil
  then show ?case by (simp add: kept_relobjs_def)
next
  case (Cons ks ro)
  obtain k sm where ks: "ks = (k, sm)" by (cases ks)
  from Cons.prems have d: "is_dict ro" "list_all (\<lambda>ks. is_dict (snd ks)) ro" "is_dict sm"
    "k \<notin> fst ` set ro" "k \<notin> fst ` set fr" "fst ` set ro \<inter> fst ` set fr = {}"
    by (auto simp: ks is_dict_def)
  show ?case
  proof (cases "is_big (map snd sm) t")
    case False
    then show ?thesis using Cons.IH[OF d(1,2,6)] by (simp add: ks kept_relobjs_def)
  next
    case True
    have "fst ` set ro \<inter> fst ` set (fr @ [(k, kept_entry sm)]) = {}"
      using d by auto
    from Cons.IH[OF d(1,2) this] show ?thesis
      using True by (simp add: ks kept_relobjs_def keep_relobj_fresh[OF d(3,5)])
  qed
qed


lemma filter_relobjs_of_other:
  "filter_relobjs_of t ro f = Inr f' \<Longrightarrow> t' \<noteq> t \<Longrightarrow> map_of f' t' = map_of f t'"
  by (drule filter_relobjs_of_eq) (simp add: map_of_modify)

lemma filter_relobjs_of_empty:
  assumes "filter_relobjs_of t ro f = Inr f'" "is_dict ro" "list_all (\<lambda>ks. is_dict (snd ks)) ro"
    "map_of f t = Some []"
  shows "map_of f' t = Some (kept_relobjs t ro)"
  using filter_relobjs_of_eq[OF assms(1)] foldl_keep_fresh[OF assms(2,3), of "[]" t] assms(4)
  by (simp add: map_of_modify)

lemma filter_relobjs_of_missing:
  "filter_relobjs_of t ro f = Inr f' \<Longrightarrow> map_of f t = None \<Longrightarrow>
   map_of f' t = None \<and> kept_relobjs t ro = []"
proof (induction ro arbitrary: f)
  case Nil
  then show ?case by (simp add: kept_relobjs_def)
next
  case (Cons ks ro)
  obtain k sm where ks: "ks = (k, sm)" by (cases ks)
  from Cons.prems have nb: "\<not> is_big (map snd sm) t"
    by (auto simp: ks split: if_splits)
  with Cons.prems have "filter_relobjs_of t ro f = Inr f'" by (simp add: ks)
  from Cons.IH[OF this Cons.prems(2)] nb show ?case by (simp add: ks kept_relobjs_def)
qed

lemma filter_loop_step:
  assumes "filter_loop ((t0, ro0) # idx) f = Inr f'" "reified_ok ((t0, ro0) # idx)"
    "\<forall>t \<in> fst ` set ((t0, ro0) # idx). map_of f t = None \<or> map_of f t = Some []"
  obtains f1 where "filter_relobjs_of t0 ro0 f = Inr f1" "filter_loop idx f1 = Inr f'"
    "reified_ok idx" "is_dict ro0" "list_all (\<lambda>ks. is_dict (snd ks)) ro0" "t0 \<notin> fst ` set idx"
    "\<forall>t \<in> fst ` set idx. map_of f1 t = None \<or> map_of f1 t = Some []"
    "map_of f t0 = None \<or> map_of f t0 = Some []"
proof -
  from assms(1) obtain f1 where f1: "filter_relobjs_of t0 ro0 f = Inr f1" "filter_loop idx f1 = Inr f'"
    by (auto simp: err_bind_def split: sum.splits)
  from assms(2) have ok: "reified_ok idx" "is_dict ro0" "list_all (\<lambda>ks. is_dict (snd ks)) ro0"
    "t0 \<notin> fst ` set idx"
    by (auto simp: reified_ok_def is_dict_def)
  have pre: "\<forall>t \<in> fst ` set idx. map_of f1 t = None \<or> map_of f1 t = Some []"
  proof
    fix u assume u: "u \<in> fst ` set idx"
    with ok(4) have "u \<noteq> t0" by auto
    from filter_relobjs_of_other[OF f1(1) this] assms(3) u
    show "map_of f1 u = None \<or> map_of f1 u = Some []" by auto
  qed
  from assms(3) have "map_of f t0 = None \<or> map_of f t0 = Some []" by simp
  with f1 ok pre that show thesis by blast
qed

lemma filter_loop_lookup:
  "filter_loop idx f = Inr f' \<Longrightarrow> reified_ok idx \<Longrightarrow>
   \<forall>t \<in> fst ` set idx. map_of f t = None \<or> map_of f t = Some [] \<Longrightarrow>
   map_of f' t =
     (case map_of idx t of
        None \<Rightarrow> map_of f t
      | Some ro \<Rightarrow> (case map_of f t of None \<Rightarrow> None | Some _ \<Rightarrow> Some (kept_relobjs t ro)))"
proof (induction idx arbitrary: f)
  case Nil
  then show ?case by simp
next
  case (Cons tr idx)
  obtain t0 ro0 where tr: "tr = (t0, ro0)" by (cases tr)
  from Cons.prems obtain f1 where f1: "filter_relobjs_of t0 ro0 f = Inr f1" "filter_loop idx f1 = Inr f'"
    and ok: "reified_ok idx" "is_dict ro0" "list_all (\<lambda>ks. is_dict (snd ks)) ro0" "t0 \<notin> fst ` set idx"
    and pre: "\<forall>t \<in> fst ` set idx. map_of f1 t = None \<or> map_of f1 t = Some []"
    and t0: "map_of f t0 = None \<or> map_of f t0 = Some []"
    unfolding tr by (rule filter_loop_step)
  note IH = Cons.IH[OF f1(2) ok(1) pre]
  show ?case
  proof (cases "t = t0")
    case False
    then show ?thesis using IH filter_relobjs_of_other[OF f1(1) False] by (simp add: tr split: option.splits)
  next
    case True
    then have none: "map_of idx t = None" using ok(4) by (simp add: map_of_eq_None_iff)
    from t0 show ?thesis
    proof
      assume "map_of f t0 = None"
      with filter_relobjs_of_missing[OF f1(1)] IH none True show ?thesis by (simp add: tr)
    next
      assume "map_of f t0 = Some []"
      with filter_relobjs_of_empty[OF f1(1) ok(2,3)] IH none True show ?thesis by (simp add: tr)
    qed
  qed
qed

lemma filter_loop_missing:
  "filter_loop idx f = Inr f' \<Longrightarrow> reified_ok idx \<Longrightarrow>
   \<forall>t \<in> fst ` set idx. map_of f t = None \<or> map_of f t = Some [] \<Longrightarrow>
   map_of idx t = Some ro \<Longrightarrow> map_of f t = None \<Longrightarrow> kept_relobjs t ro = []"
proof (induction idx arbitrary: f)
  case Nil
  then show ?case by simp
next
  case (Cons tr idx)
  obtain t0 ro0 where tr: "tr = (t0, ro0)" by (cases tr)
  from Cons.prems(1-3) obtain f1 where f1: "filter_relobjs_of t0 ro0 f = Inr f1" "filter_loop idx f1 = Inr f'"
    and ok: "reified_ok idx" "is_dict ro0" "list_all (\<lambda>ks. is_dict (snd ks)) ro0" "t0 \<notin> fst ` set idx"
    and pre: "\<forall>t \<in> fst ` set idx. map_of f1 t = None \<or> map_of f1 t = Some []"
    unfolding tr by (rule filter_loop_step)
  show ?case
  proof (cases "t = t0")
    case True
    with Cons.prems(4) have "ro = ro0" by (simp add: tr)
    with filter_relobjs_of_missing[OF f1(1)] Cons.prems(5) True show ?thesis by simp
  next
    case False
    with Cons.prems(4) have "map_of idx t = Some ro" by (simp add: tr)
    moreover have "map_of f1 t = None"
      using filter_relobjs_of_other[OF f1(1) False] Cons.prems(5) by simp
    ultimately show ?thesis using Cons.IH[OF f1(2) ok(1) pre] by simp
  qed
qed

lemma map_of_empty_dicts:
  "map_of (empty_dicts rts) t = (if t \<in> fst ` set rts then Some [] else None)"
  by (induction rts) (auto simp: empty_dicts_def)

lemma map_of_kept_relobjs:
  "is_dict ro \<Longrightarrow> map_of ro k = Some subjects \<Longrightarrow>
   map_of (kept_relobjs t ro) k = (if is_big (map snd subjects) t then Some (kept_entry subjects) else None)"
proof (induction ro)
  case Nil
  then show ?case by simp
next
  case (Cons ks ro)
  show ?case
  proof (cases "fst ks = k")
    case True
    with Cons.prems have "snd ks = subjects" "k \<notin> fst ` set ro" by (auto simp: is_dict_def)
    then have "map_of (kept_relobjs t ro) k = None"
      by (force simp: kept_relobjs_def map_of_eq_None_iff)
    then show ?thesis using True \<open>snd ks = subjects\<close> by (simp add: kept_relobjs_def)
  next
    case False
    with Cons have "map_of (kept_relobjs t ro) k = (if is_big (map snd subjects) t then Some (kept_entry subjects) else None)"
      by (auto simp: is_dict_def)
    then show ?thesis using False by (simp add: kept_relobjs_def)
  qed
qed

lemma filter_entry_lookup:
  assumes "filter_relobjs idx = Inr f" "reified_ok idx" "lookup2 idx t k = Some subjects"
  shows "lookup2 f t k = (if is_big (map snd subjects) t then Some (kept_entry subjects) else None)"
proof -
  from assms(3) obtain ro where ro: "map_of idx t = Some ro" "map_of ro k = Some subjects"
    by (auto simp: lookup2_def split: option.splits)
  have loop: "filter_loop idx (empty_dicts RELTYPES) = Inr f"
    using assms(1) by (simp add: filter_relobjs_def)
  have pre: "\<forall>t \<in> fst ` set idx. map_of (empty_dicts RELTYPES :: filtered) t = None \<or> map_of (empty_dicts RELTYPES :: filtered) t = Some []"
    by (simp add: map_of_empty_dicts)
  have dict: "is_dict ro"
    using assms(2) map_of_SomeD[OF ro(1)] by (auto simp: reified_ok_def list_all_iff)
  show ?thesis
  proof (cases "t \<in> fst ` set RELTYPES")
    case True
    then have "map_of f t = Some (kept_relobjs t ro)"
      using filter_loop_lookup[OF loop assms(2) pre, of t] ro(1) by (simp add: map_of_empty_dicts)
    then show ?thesis using map_of_kept_relobjs[OF dict ro(2)] by (simp add: lookup2_def)
  next
    case False
    then have e: "map_of (empty_dicts RELTYPES :: filtered) t = None" by (simp add: map_of_empty_dicts)
    have "map_of f t = None"
      using filter_loop_lookup[OF loop assms(2) pre, of t] ro(1) e by simp
    moreover have "kept_relobjs t ro = []"
      using filter_loop_missing[OF loop assms(2) pre ro(1) e] .
    ultimately show ?thesis using map_of_kept_relobjs[OF dict ro(2), of t] by (simp add: lookup2_def split: if_splits)
  qed
qed

section \<open>What the filter keeps\<close>

lemma map_insort_key: "map f (insort_key f x xs) = insort (f x) (map f xs)"
  by (induction xs) auto

lemma map_sort_key: "map f (sort_key f xs) = sort (map f xs)"
  by (induction xs) (auto simp: map_insort_key)

lemma kept_entry_ranks:
  "map (\<lambda>se. (length (snd se), fst se)) (entry_data (kept_entry subjects))
   = take 8 (rev (sort (map (\<lambda>se. (length (snd se), fst se)) subjects)))"
proof -
  let ?K = "\<lambda>t :: nat \<times> string \<times> evidence_item list. (fst t, fst (snd t))"
  let ?ts = "map (\<lambda>kv. (length (snd kv), fst kv, snd kv)) subjects"
  have "map ((\<lambda>se. (length (snd se), fst se)) \<circ> snd) (sort_key ?K ?ts) = map ?K (sort_key ?K ?ts)"
    by (rule map_cong) auto
  also have "\<dots> = sort (map (\<lambda>se. (length (snd se), fst se)) subjects)"
    by (simp add: map_sort_key comp_def)
  finally have "take 8 (rev (map ((\<lambda>se. (length (snd se), fst se)) \<circ> snd) (sort_key ?K ?ts)))
      = take 8 (rev (sort (map (\<lambda>se. (length (snd se), fst se)) subjects)))"
    by simp
  then show ?thesis
    by (simp add: kept_entry_def subjects_sorted_def take_map rev_map)
qed


lemma sorted_wrt_take_rev_sort:
  fixes xs :: "('a :: linorder) list"
  assumes "distinct xs"
  shows "sorted_wrt (\<lambda>a b. b < a) (take n (rev (sort xs)))"
proof -
  have "sorted_wrt (<) (sort xs)"
    using assms by (simp add: strict_sorted_iff)
  then have "sorted_wrt (\<lambda>a b. b < a) (rev (sort xs))"
    by (simp add: sorted_wrt_rev)
  then show ?thesis by (rule sorted_wrt_take)
qed

lemma distinct_ranks:
  "is_dict subjects \<Longrightarrow> distinct (map (\<lambda>se. (length (snd se), fst se)) subjects)"
  unfolding is_dict_def
  by (induction subjects) auto

lemma reified_ok_subjects:
  "reified_ok idx \<Longrightarrow> lookup2 idx t k = Some subjects \<Longrightarrow> is_dict subjects"
  by (fastforce simp: lookup2_def reified_ok_def list_all_iff split: option.splits dest!: map_of_SomeD)

text \<open>
  Claim C1: for a key that survives \<open>filter_relobjs\<close>, the subjects of its data mapping,
  read as pairs (number of evidence items, subject name), are the pairs of all subjects
  of the key sorted ascending and then reversed as a whole, cut to eight; so they stand
  by count descending and, for equal counts, by name descending (lexicographic).
\<close>

theorem subjects_ranked:
  assumes "filter_relobjs idx = Inr f" "reified_ok idx"
    "lookup2 idx t k = Some subjects" "lookup2 f t k = Some entry"
  shows "map (\<lambda>se. (length (snd se), fst se)) (entry_data entry)
           = take 8 (rev (sort (map (\<lambda>se. (length (snd se), fst se)) subjects)))
       \<and> sorted_wrt (\<lambda>a b. fst b < fst a \<or> (fst b = fst a \<and> snd b < snd a))
           (map (\<lambda>se. (length (snd se), fst se)) (entry_data entry))"
proof -
  from filter_entry_lookup[OF assms(1-3)] assms(4) have entry: "entry = kept_entry subjects"
    by (simp split: if_splits)
  from assms(2,3) have "is_dict subjects" by (rule reified_ok_subjects)
  then have "sorted_wrt (\<lambda>a b. b < a)
      (take 8 (rev (sort (map (\<lambda>se. (length (snd se), fst se)) subjects))))"
    by (intro sorted_wrt_take_rev_sort distinct_ranks)
  then have "sorted_wrt (\<lambda>a b. fst b < fst a \<or> (fst b = fst a \<and> snd b < snd a))
      (take 8 (rev (sort (map (\<lambda>se. (length (snd se), fst se)) subjects))))"
    by (rule sorted_wrt_mono_rel[rotated]) (auto simp: less_prod_def)
  then show ?thesis
    by (simp add: entry kept_entry_ranks)
qed

text \<open>
  Claim C2: for every relation type and every key of the reified index, \<open>filter_relobjs\<close>
  keeps the key if and only if the sum of the lengths of its evidence lists is at least
  25 for a type that ends in \<^verbatim>\<open>Amount\<close> and at least 100 for any other type; a sum equal
  to the threshold is kept, and the size recorded for a kept key reaches the threshold.
\<close>

theorem significance_threshold:
  assumes "filter_relobjs idx = Inr f" "reified_ok idx" "lookup2 idx t k = Some subjects"
  shows "(lookup2 f t k \<noteq> None)
           = ((if endswith t ''Amount'' then 25 else 100) \<le> size_of (map snd subjects))
       \<and> (\<forall>entry. lookup2 f t k = Some entry \<longrightarrow>
            (if endswith t ''Amount'' then 25 else 100) \<le> entry_size entry)"
  using filter_entry_lookup[OF assms] by (auto simp: is_big_def kept_entry_def split: if_splits)

lemma sum_length_insort_key:
  "sum_list (map g (insort_key f x xs)) = g x + sum_list (map g xs)"
  for g :: "'a \<Rightarrow> nat"
  by (induction xs) auto

lemma sum_length_sort_key: "sum_list (map g (sort_key f xs)) = sum_list (map g xs)"
  for g :: "'a \<Rightarrow> nat"
  by (induction xs) (auto simp: sum_length_insort_key)

lemma size_of_sorted:
  "size_of (map (\<lambda>t. snd (snd t)) (subjects_sorted subjects)) = size_of (map snd subjects)"
  by (simp add: size_of_def subjects_sorted_def comp_def sum_length_sort_key flip: rev_map)

lemma size_of_take_drop:
  "size_of (map h (take n xs)) + size_of (map h (drop n xs)) = size_of (map h xs)"
proof -
  have "size_of (map h (take n xs @ drop n xs)) = size_of (map h xs)" by simp
  then show ?thesis unfolding size_of_def map_append sum_list_append .
qed

text \<open>
  Claim C5: the size recorded for a surviving key is the sum over all subjects of the
  key, taken before the cut to eight subjects; it is never below the sum over the
  retained data, and exceeds it whenever the key has more than eight subjects, none
  with an empty evidence list.
\<close>

theorem size_before_cut:
  assumes "filter_relobjs idx = Inr f" "reified_ok idx"
    "lookup2 idx t k = Some subjects" "lookup2 f t k = Some entry"
  shows "entry_size entry = size_of (map snd subjects)
       \<and> size_of (map snd (entry_data entry)) \<le> entry_size entry
       \<and> (8 < length subjects \<and> [] \<notin> snd ` set subjects
            \<longrightarrow> size_of (map snd (entry_data entry)) < entry_size entry)"
proof -
  from filter_entry_lookup[OF assms(1-3)] assms(4) have entry: "entry = kept_entry subjects"
    by (simp split: if_splits)
  let ?s = "subjects_sorted subjects"
  have data: "map snd (entry_data entry) = map (\<lambda>t. snd (snd t)) (take 8 ?s)"
    by (simp add: entry kept_entry_def)
  have split: "size_of (map snd (entry_data entry)) + size_of (map (\<lambda>t. snd (snd t)) (drop 8 ?s))
      = entry_size entry"
    unfolding data using size_of_take_drop[of "\<lambda>t. snd (snd t)" 8 ?s]
    by (simp add: size_of_sorted entry kept_entry_def)
  have "0 < size_of (map (\<lambda>t. snd (snd t)) (drop 8 ?s))"
    if "8 < length subjects" "[] \<notin> snd ` set subjects"
  proof -
    from that(1) have "drop 8 ?s \<noteq> []" by (simp add: subjects_sorted_def)
    then obtain x xs where x: "drop 8 ?s = x # xs" by (cases "drop 8 ?s") auto
    then have "x \<in> set ?s" by (metis in_set_dropD list.set_intros(1))
    then have "(fst (snd x), snd (snd x)) \<in> set subjects"
      by (auto simp: subjects_sorted_def)
    with that(2) have "snd (snd x) \<noteq> []" by force
    then show ?thesis by (simp add: x size_of_def)
  qed
  with split show ?thesis
    by (auto simp: entry kept_entry_def)
qed


lemma ranked_cut:
  assumes "is_dict subjects"
    "x \<in> set (take n (subjects_sorted subjects))" "y \<in> set (drop n (subjects_sorted subjects))"
  shows "(fst y, fst (snd y)) < (fst x, fst (snd x))"
proof -
  let ?K = "\<lambda>t :: nat \<times> string \<times> evidence_item list. (fst t, fst (snd t))"
  let ?ts = "map (\<lambda>kv. (length (snd kv), fst kv, snd kv)) subjects"
  have "map ?K ?ts = map (\<lambda>se. (length (snd se), fst se)) subjects" by simp
  then have "distinct (map ?K ?ts)" using distinct_ranks[OF assms(1)] by (simp only:)
  then have "distinct (map ?K (sort_key ?K ?ts))" by (simp only: distinct_map_sort_key)
  moreover have "sorted (map ?K (sort_key ?K ?ts))" by (rule sorted_sort_key)
  ultimately have "sorted_wrt (<) (map ?K (sort_key ?K ?ts))" by (simp only: strict_sorted_iff)
  then have "sorted_wrt (\<lambda>a b. ?K a < ?K b) (sort_key ?K ?ts)" by (simp only: sorted_wrt_map)
  then have "sorted_wrt (\<lambda>a b. ?K b < ?K a) (subjects_sorted subjects)"
    by (simp only: subjects_sorted_def sorted_wrt_rev)
  then have "sorted_wrt (\<lambda>a b. ?K b < ?K a)
      (take n (subjects_sorted subjects) @ drop n (subjects_sorted subjects))"
    by simp
  then show ?thesis using assms(2,3) unfolding sorted_wrt_append by blast
qed

text \<open>
  Claim C6: the data mapping of a surviving key has at most eight subjects (eight, or
  all of them when there are fewer); each retained subject stands with the very evidence
  list it has in the reified index; and no subject left out has more evidence items than
  a retained one.
\<close>

theorem top_eight:
  assumes "filter_relobjs idx = Inr f" "reified_ok idx"
    "lookup2 idx t k = Some subjects" "lookup2 f t k = Some entry"
  shows "length (entry_data entry) = min 8 (length subjects)
       \<and> is_dict (entry_data entry)
       \<and> set (entry_data entry) \<subseteq> set subjects
       \<and> (\<forall>kept \<in> set (entry_data entry). \<forall>dropped \<in> set subjects - set (entry_data entry).
            length (snd dropped) \<le> length (snd kept))"
proof -
  from filter_entry_lookup[OF assms(1-3)] assms(4) have entry: "entry = kept_entry subjects"
    by (simp split: if_splits)
  from assms(2,3) have dict: "is_dict subjects" by (rule reified_ok_subjects)
  let ?s = "subjects_sorted subjects"
  have data: "entry_data entry = map snd (take 8 ?s)"
    by (simp add: entry kept_entry_def)
  have len: "length (entry_data entry) = min 8 (length subjects)"
    by (simp add: data subjects_sorted_def)
  have "distinct (map (\<lambda>t. fst (snd t)) (take 8 ?s))"
    using distinct_subjects_sorted[OF dict] by (simp flip: take_map)
  then have d: "is_dict (entry_data entry)"
    by (simp add: data is_dict_def comp_def)
  have all: "snd ` set ?s = set subjects"
    by (force simp: subjects_sorted_def)
  have sub: "set (entry_data entry) \<subseteq> set subjects"
    unfolding data using all by (auto dest: in_set_takeD)
  have top: "length (snd dropped) \<le> length (snd kept)"
    if "kept \<in> set (entry_data entry)" "dropped \<in> set subjects - set (entry_data entry)"
    for kept dropped
  proof -
    from that(1) obtain x where x: "x \<in> set (take 8 ?s)" "kept = snd x"
      by (auto simp: data)
    from that(2) all obtain y where y: "y \<in> set ?s" "dropped = snd y" by blast
    with that(2) have "y \<notin> set (take 8 ?s)" by (auto simp: data)
    with y(1) have "y \<in> set (drop 8 ?s)"
      by (metis Un_iff append_take_drop_id set_append)
    from ranked_cut[OF dict x(1) this] have "fst y \<le> fst x" by (auto simp: less_prod_def)
    moreover have "fst x = length (snd (snd x))" "fst y = length (snd (snd y))"
      using in_set_takeD[OF x(1)] y(1) by (auto simp: subjects_sorted_def)
    ultimately show ?thesis by (simp add: x(2) y(2))
  qed
  from len d sub top show ?thesis by blast
qed


lemma example_filter: "filter_relobjs example_reified = Inr example_filtered"
  by code_simp

lemma example_ok: "reified_ok example_reified"
  by code_simp

lemma example_tied:
  "lookup2 example_reified ''DecreaseAmount'' ''TNF-decreaser'' = Some tied_subjects"
  "lookup2 example_filtered ''DecreaseAmount'' ''TNF-decreaser'' = Some tied_entry"
  by code_simp+

lemma example_nine:
  "lookup2 example_reified ''IncreaseAmount'' ''TNF-increaser'' = Some nine_subjects"
  "lookup2 example_filtered ''IncreaseAmount'' ''TNF-increaser'' = Some nine_entry"
  by code_simp+

text \<open>
  The hypotheses of C1 hold for the key \<^verbatim>\<open>TNF-decreaser\<close> of the example, whose subjects
  \<^verbatim>\<open>a\<close> and \<^verbatim>\<open>b\<close> tie with 12 items: \<^verbatim>\<open>b\<close> comes first.
\<close>

theorem subjects_ranked_witness:
  "filter_relobjs example_reified = Inr example_filtered \<and> reified_ok example_reified
   \<and> lookup2 example_reified ''DecreaseAmount'' ''TNF-decreaser'' = Some tied_subjects
   \<and> lookup2 example_filtered ''DecreaseAmount'' ''TNF-decreaser'' = Some tied_entry
   \<and> map (\<lambda>se. (length (snd se), fst se)) (entry_data tied_entry)
        = take 8 (rev (sort (map (\<lambda>se. (length (snd se), fst se)) tied_subjects)))
   \<and> sorted_wrt (\<lambda>a b. fst b < fst a \<or> (fst b = fst a \<and> snd b < snd a))
        (map (\<lambda>se. (length (snd se), fst se)) (entry_data tied_entry))
   \<and> map (\<lambda>se. (length (snd se), fst se)) (entry_data tied_entry)
        = [(12, ''b''), (12, ''a''), (1, ''c'')]"
proof -
  have "map (\<lambda>se. (length (snd se), fst se)) (entry_data tied_entry)
        = [(12, ''b''), (12, ''a''), (1, ''c'')]"
    by code_simp
  with subjects_ranked [OF example_filter example_ok example_tied]
    example_filter example_ok example_tied
  show ?thesis by blast
qed

text \<open>
  The hypotheses of C2 hold for the key \<^verbatim>\<open>TNF-activator\<close> of the example, kept with exactly
  100 items; the key \<^verbatim>\<open>IL6-activator\<close> with 99 items is dropped.
\<close>

theorem significance_threshold_witness:
  "filter_relobjs example_reified = Inr example_filtered \<and> reified_ok example_reified
   \<and> lookup2 example_reified ''Activation'' ''TNF-activator''
        = Some [(''IL12'', example_items 100 ''d1'')]
   \<and> (lookup2 example_filtered ''Activation'' ''TNF-activator'' \<noteq> None)
        = ((if endswith ''Activation'' ''Amount'' then 25 else 100)
             \<le> size_of (map snd [(''IL12'', example_items 100 ''d1'')]))
   \<and> size_of (map snd [(''IL12'', example_items 100 ''d1'')]) = 100
   \<and> lookup2 example_filtered ''Activation'' ''IL6-activator'' = None"
proof -
  have h: "lookup2 example_reified ''Activation'' ''TNF-activator''
        = Some [(''IL12'', example_items 100 ''d1'')]"
    by code_simp
  have "size_of (map snd [(''IL12'', example_items 100 ''d1'')]) = 100"
    by (simp add: size_of_def example_items_def)
  moreover have "lookup2 example_filtered ''Activation'' ''IL6-activator'' = None"
    by code_simp
  ultimately show ?thesis
    using significance_threshold [OF example_filter example_ok h] example_filter example_ok h
    by blast
qed

text \<open>
  The hypotheses of C5 hold for the key \<^verbatim>\<open>TNF-increaser\<close> of the example: nine subjects,
  size 45, and 44 items in the retained data.
\<close>

theorem size_before_cut_witness:
  "filter_relobjs example_reified = Inr example_filtered \<and> reified_ok example_reified
   \<and> lookup2 example_reified ''IncreaseAmount'' ''TNF-increaser'' = Some nine_subjects
   \<and> lookup2 example_filtered ''IncreaseAmount'' ''TNF-increaser'' = Some nine_entry
   \<and> 8 < length nine_subjects \<and> [] \<notin> snd ` set nine_subjects
   \<and> entry_size nine_entry = size_of (map snd nine_subjects)
   \<and> size_of (map snd (entry_data nine_entry)) < entry_size nine_entry
   \<and> entry_size nine_entry = 45 \<and> size_of (map snd (entry_data nine_entry)) = 44"
proof -
  have n: "8 < length nine_subjects" by code_simp
  have e: "[] \<notin> snd ` set nine_subjects" by code_simp
  have "entry_size nine_entry = 45" "size_of (map snd (entry_data nine_entry)) = 44"
    by code_simp+
  with size_before_cut [OF example_filter example_ok example_nine]
    example_filter example_ok example_nine n e
  show ?thesis by blast
qed

text \<open>
  The hypotheses of C6 hold for the key \<^verbatim>\<open>TNF-increaser\<close> of the example: of nine
  subjects with 1 to 9 items, the eight with 9 down to 2 items are retained.
\<close>

theorem top_eight_witness:
  "filter_relobjs example_reified = Inr example_filtered \<and> reified_ok example_reified
   \<and> lookup2 example_reified ''IncreaseAmount'' ''TNF-increaser'' = Some nine_subjects
   \<and> lookup2 example_filtered ''IncreaseAmount'' ''TNF-increaser'' = Some nine_entry
   \<and> length (entry_data nine_entry) = min 8 (length nine_subjects)
   \<and> is_dict (entry_data nine_entry)
   \<and> set (entry_data nine_entry) \<subseteq> set nine_subjects
   \<and> map (\<lambda>se. (fst se, length (snd se))) nine_subjects
        = [(''a'', 1), (''b'', 2), (''c'', 3), (''d'', 4), (''e'', 5), (''f'', 6), (''g'', 7),
           (''h'', 8), (''i'', 9)]
   \<and> map (\<lambda>se. (fst se, length (snd se))) (entry_data nine_entry)
        = [(''i'', 9), (''h'', 8), (''g'', 7), (''f'', 6), (''e'', 5), (''d'', 4), (''c'', 3),
           (''b'', 2)]"
proof -
  have "map (\<lambda>se. (fst se, length (snd se))) nine_subjects
        = [(''a'', 1), (''b'', 2), (''c'', 3), (''d'', 4), (''e'', 5), (''f'', 6), (''g'', 7),
           (''h'', 8), (''i'', 9)]"
    "map (\<lambda>se. (fst se, length (snd se))) (entry_data nine_entry)
        = [(''i'', 9), (''h'', 8), (''g'', 7), (''f'', 6), (''e'', 5), (''d'', 4), (''c'', 3),
           (''b'', 2)]"
    by code_simp+
  with top_eight [OF example_filter example_ok example_nine]
    example_filter example_ok example_nine
  show ?thesis by blast
qed

section \<open>The collector returns or raises\<close>

lemma collect_evidence_ok:
  "list_all pmid_hashable es \<Longrightarrow> \<exists>evs. collect_evidence md es = Inr evs"
proof (induction es)
  case Nil
  then show ?case by simp
next
  case (Cons e es)
  then obtain evs where evs: "collect_evidence md es = Inr evs" by auto
  from Cons.prems have "pmid_hashable e" by simp
  then obtain kvs where e: "e = JObj kvs"
    by (cases e) (auto simp: pmid_hashable_def)
  from \<open>pmid_hashable e\<close>
  obtain s where "get_sha md (case map_of kvs ''pmid'' of None \<Rightarrow> JNull | Some v \<Rightarrow> v) = Inr s"
    unfolding e pmid_hashable_def
    by (cases "case map_of kvs ''pmid'' of None \<Rightarrow> JNull | Some v \<Rightarrow> v") auto
  then show ?case
    by (simp add: e evs err_bind_def)
qed

lemma subj_obj_names_ok:
  assumes "mapping_or_absent result ''subj''" "mapping_or_absent result ''obj''"
  shows "\<exists>r. subj_obj_names result = Inr r"
proof (cases "names_of result")
  case (Inr a)
  then show ?thesis by (simp add: subj_obj_names_def)
next
  case (Inl err)
  have "err = KeyError"
    using assms Inl
    unfolding names_of_def mapping_or_absent_def err_bind_def
    by (auto split: sum.splits json.splits option.splits)
  then show ?thesis using Inl by (simp add: subj_obj_names_def)
qed

lemma collect_record_ok:
  assumes "record_ok result"
  shows "\<exists>r. collect_record md result = Inr r"
proof -
  from assms obtain ty where ty: "subscript result ''type'' = Inr ty"
    by (auto simp: record_ok_def split: sum.splits)
  show ?thesis
  proof (cases "\<exists>t. ty = JStr t \<and> t \<in> set target_relations")
    case False
    then show ?thesis
      by (cases ty) (auto simp: collect_record_def ty err_bind_def)
  next
    case True
    then obtain t where t: "ty = JStr t" "t \<in> set target_relations" by auto
    with assms ty have ok: "mapping_or_absent result ''subj''" "mapping_or_absent result ''obj''"
      "has_names result \<longrightarrow> evidence_list_ok result"
      by (auto simp: record_ok_def)
    from subj_obj_names_ok[OF ok(1,2)] obtain r where r: "subj_obj_names result = Inr r" by auto
    show ?thesis
    proof (cases r)
      case None
      then show ?thesis by (simp add: collect_record_def ty t r err_bind_def)
    next
      case (Some names)
      then have "has_names result"
        using r by (auto simp: subj_obj_names_def has_names_def split: sum.splits if_splits)
      with ok have "evidence_list_ok result" by simp
      then obtain es where es: "subscript result ''evidence'' = Inr (JArr es)"
          "list_all pmid_hashable es"
        by (auto simp: evidence_list_ok_def split: sum.splits json.splits)
      from collect_evidence_ok[OF es(2)] obtain evs where "collect_evidence md es = Inr evs"
        by auto
      then show ?thesis
        using Some es(1)
        by (cases names) (simp add: collect_record_def ty t r err_bind_def collect_named_def)
    qed
  qed
qed

lemma collect_loop_ok:
  "list_all record_ok rs \<Longrightarrow> \<exists>rels. collect_loop md rs = Inr rels"
proof (induction rs)
  case Nil
  then show ?case by simp
next
  case (Cons r rs)
  then obtain rels where "collect_loop md rs = Inr rels" by auto
  moreover from Cons.prems collect_record_ok obtain x where "collect_record md r = Inr x"
    by fastforce
  ultimately show ?case by (simp add: err_bind_def)
qed

lemma list_all_slice_to: "list_all P xs \<Longrightarrow> list_all P (slice_to n xs)"
  by (auto simp: slice_to_def list_all_iff dest: in_set_takeD)

text \<open>
  Claim C4, as stated, fails: a record of one of the four types that names its subject
  and its object and has no \<^verbatim>\<open>evidence\<close> key makes \<open>collect_relations\<close> raise \<^verbatim>\<open>KeyError\<close>
  at line 308, which no \<^verbatim>\<open>try\<close> covers.
\<close>

theorem collect_relations_raises:
  "collect_relations Map.empty 100000
     [JObj [(''type'', JStr ''Activation''), (''subj'', JObj [(''name'', JStr ''IL12'')]),
            (''obj'', JObj [(''name'', JStr ''TNF'')])]] = Inl KeyError"
  by (simp add: collect_relations_def slice_to_def collect_record_def err_bind_def
      target_relations_def subj_obj_names_def names_of_def collect_named_def)

text \<open>
  Claim C4, amended: for every list of records of the shape \<open>record_ok\<close> (a dict with a
  \<^verbatim>\<open>type\<close>; for the four types, \<^verbatim>\<open>subj\<close> and \<^verbatim>\<open>obj\<close> dicts when present, and with both names an
  \<^verbatim>\<open>evidence\<close> list of dicts with hashable \<^verbatim>\<open>pmid\<close>), every resolver and every \<open>n\<close>,
  \<open>collect_relations\<close> returns a list and raises nothing: a record of another type, a
  record without subject or object name and an evidence entry that does not resolve
  are passed over silently.
\<close>

theorem collect_relations_returns:
  "list_all record_ok rs \<Longrightarrow> \<exists>rels. collect_relations md n rs = Inr rels"
  unfolding collect_relations_def by (intro collect_loop_ok list_all_slice_to)

theorem collect_relations_returns_witness:
  "list_all record_ok example_records
   \<and> (\<exists>rels. collect_relations example_metadata 100000 example_records = Inr rels)"
proof -
  have ok: "list_all record_ok example_records"
    by code_simp
  show ?thesis
    using ok collect_relations_returns [OF ok, of example_metadata 100000] by simp
qed

text \<open>
  Claim C10: \<open>collect_relations\<close> reads only \<^verbatim>\<open>self.results[:n]\<close>, \<open>convert\<close> calls it with the
  default \<open>n = 100000\<close>, and so the records after the first 100000 change nothing: neither
  the relations collected nor any index \<open>convert\<close> builds from them (nor whether it
  raises).
\<close>

theorem record_cap:
  "collect_relations md 100000 rs = collect_relations md 100000 (take 100000 rs)
   \<and> map_sum id (\<lambda>s. (relations s, reified_rels s, filtered_rels s, inverted_rels s))
        (convert (self\<lparr>results := rs\<rparr>))
     = map_sum id (\<lambda>s. (relations s, reified_rels s, filtered_rels s, inverted_rels s))
        (convert (self\<lparr>results := take 100000 rs\<rparr>))"
proof -
  have c: "collect_relations md 100000 rs = collect_relations md 100000 (take 100000 rs)" for md
    by (simp add: collect_relations_def slice_to_def)
  show ?thesis
    using c[of "metadata self"]
    by (auto simp: c[symmetric] convert_def err_bind_def split: sum.splits)
qed

section \<open>Evidence that does not resolve\<close>




lemma list_all_modify:
  "list_all P m \<Longrightarrow> (\<And>v. (k, v) \<in> set m \<Longrightarrow> P (k, v) \<Longrightarrow> P (k, f v)) \<Longrightarrow> list_all P (modify k f m)"
  by (induction m) auto

lemma list_all_setdefault:
  "list_all P m \<Longrightarrow> P (k, d) \<Longrightarrow> list_all P (setdefault k d m)"
  by (simp add: setdefault_def)






section \<open>Two runs of convert\<close>



section \<open>The inverted index\<close>

lemma set_extend_at:
  "p \<in> set (extend_at k xs m) \<Longrightarrow> p \<in> set m \<or> (\<exists>old. p = (k, old @ xs) \<and> (old = [] \<or> (k, old) \<in> set m))"
proof (cases "k \<in> fst ` set m")
  case True
  assume "p \<in> set (extend_at k xs m)"
  then show ?thesis using True set_modify[of p k "\<lambda>old. old @ xs" m] by (auto simp: extend_at_old)
next
  case False
  assume "p \<in> set (extend_at k xs m)"
  then show ?thesis using False by (auto simp: extend_at_new)
qed

lemma add_pairs_invariant:
  assumes "\<forall>kp \<in> set ir. snd kp \<noteq> [] \<and> (\<forall>pr \<in> set (snd kp). Q (fst kp) pr)"
    "\<forall>p \<in> set ps. Q (fst p) (snd p)"
  shows "\<forall>kp \<in> set (add_pairs ps ir). snd kp \<noteq> [] \<and> (\<forall>pr \<in> set (snd kp). Q (fst kp) pr)"
  using assms
proof (induction ps arbitrary: ir)
  case Nil
  then show ?case by simp
next
  case (Cons p ps)
  obtain fname pr where p: "p = (fname, pr)" by (cases p)
  have "\<forall>kp \<in> set (extend_at fname [pr] ir). snd kp \<noteq> [] \<and> (\<forall>pr \<in> set (snd kp). Q (fst kp) pr)"
  proof
    fix kp assume "kp \<in> set (extend_at fname [pr] ir)"
    from set_extend_at[OF this] Cons.prems show "snd kp \<noteq> [] \<and> (\<forall>pr \<in> set (snd kp). Q (fst kp) pr)"
      by (fastforce simp: p)
  qed
  with Cons.IH[of "extend_at fname [pr] ir"] Cons.prems(2) show ?case by (simp add: p)
qed

lemma file_pairs_add_pairs:
  "file_pairs (add_pairs ps ir) k = file_pairs ir k @ map snd (filter (\<lambda>p. fst p = k) ps)"
proof (induction ps arbitrary: ir)
  case Nil
  then show ?case by simp
next
  case (Cons p ps)
  obtain fname pr where p: "p = (fname, pr)" by (cases p)
  have "file_pairs (extend_at fname [pr] ir) k = file_pairs ir k @ (if fname = k then [pr] else [])"
    by (simp add: file_pairs_def map_of_extend_at split: option.splits)
  with Cons.IH[of "extend_at fname [pr] ir"] show ?case by (simp add: p)
qed

lemma set_doc_pairs:
  "set (doc_pairs fr) =
     {(item_sha e @ ''.json'', (rk, s)) | e rk s entry es.
        (rk, entry) \<in> set fr \<and> (s, es) \<in> set (entry_data entry) \<and> e \<in> set es}"
  unfolding doc_pairs_def by (auto simp: image_iff) blast+


lemma invert_loop_invariant:
  assumes "invert_loop ts f ir = Inr ir'"
    "\<forall>kp \<in> set ir. snd kp \<noteq> [] \<and> (\<forall>pr \<in> set (snd kp). Q (fst kp) pr)"
    "\<And>t fr p. t \<in> set ts \<Longrightarrow> map_of f t = Some fr \<Longrightarrow> p \<in> set (doc_pairs fr) \<Longrightarrow> Q (fst p) (snd p)"
  shows "\<forall>kp \<in> set ir'. snd kp \<noteq> [] \<and> (\<forall>pr \<in> set (snd kp). Q (fst kp) pr)"
  using assms
proof (induction ts arbitrary: ir)
  case Nil
  then show ?case by simp
next
  case (Cons t ts)
  from Cons.prems(1) obtain fr where fr: "map_of f t = Some fr"
    "invert_loop ts f (add_pairs (doc_pairs fr) ir) = Inr ir'"
    by (auto split: option.splits)
  have "\<forall>p \<in> set (doc_pairs fr). Q (fst p) (snd p)"
    using Cons.prems(3)[OF _ fr(1)] by simp
  from add_pairs_invariant[OF Cons.prems(2) this]
  have step: "\<forall>kp \<in> set (add_pairs (doc_pairs fr) ir).
      snd kp \<noteq> [] \<and> (\<forall>pr \<in> set (snd kp). Q (fst kp) pr)" .
  have rest: "Q (fst p) (snd p)"
    if "t' \<in> set ts" "map_of f t' = Some fr'" "p \<in> set (doc_pairs fr')" for t' fr' p
    using Cons.prems(3)[of t' fr' p] that by simp
  show ?case by (rule Cons.IH[OF fr(2) step rest])
qed

lemma invert_loop_file_pairs:
  "invert_loop ts f ir = Inr ir' \<Longrightarrow>
   file_pairs ir' k = file_pairs ir k @
     concat (map (\<lambda>t. case map_of f t of None \<Rightarrow> []
                       | Some fr \<Rightarrow> map snd (filter (\<lambda>p. fst p = k) (doc_pairs fr))) ts)"
proof (induction ts arbitrary: ir)
  case Nil
  then show ?case by simp
next
  case (Cons t ts)
  from Cons.prems(1) obtain fr where fr: "map_of f t = Some fr"
    "invert_loop ts f (add_pairs (doc_pairs fr) ir) = Inr ir'"
    by (auto split: option.splits)
  from Cons.IH[OF fr(2)] show ?case by (simp add: fr(1) file_pairs_add_pairs)
qed

lemma metadata_add_metadata:
  "(case map_of (add_metadata ps md) k of None \<Rightarrow> [] | Some ss \<Rightarrow> ss)
   = (case map_of md k of None \<Rightarrow> [] | Some ss \<Rightarrow> ss) @ map snd (filter (\<lambda>p. fst p = k) ps)"
proof (induction ps arbitrary: md)
  case Nil
  then show ?case by simp
next
  case (Cons p ps)
  obtain relobj subj where p: "p = (relobj, subj)" by (cases p)
  show ?case
    unfolding p add_metadata.simps Cons.IH
    by (simp add: map_of_extend_at split: option.splits)
qed

lemma inverted_supported:
  assumes "invert_filtered_relobjs idx f = Inr ir"
  shows "\<forall>kp \<in> set ir. snd kp \<noteq> [] \<and> (\<forall>pr \<in> set (snd kp). \<exists>t fr entry es e.
      t \<in> fst ` set idx \<and> map_of f t = Some fr \<and> (fst pr, entry) \<in> set fr
      \<and> (snd pr, es) \<in> set (entry_data entry) \<and> e \<in> set es \<and> item_sha e @ ''.json'' = fst kp)"
proof -
  let ?Q = "\<lambda>fname pr. \<exists>t fr entry es e.
      t \<in> fst ` set idx \<and> map_of f t = Some fr \<and> (fst pr, entry) \<in> set fr
      \<and> (snd pr, es) \<in> set (entry_data entry) \<and> e \<in> set es \<and> item_sha e @ ''.json'' = fname"
  show ?thesis
  proof (rule invert_loop_invariant[where Q = ?Q])
    show "invert_loop (map fst idx) f [] = Inr ir"
      using assms(1) by (simp add: invert_filtered_relobjs_def)
    show "\<forall>kp \<in> set []. snd kp \<noteq> [] \<and> (\<forall>pr \<in> set (snd kp). ?Q (fst kp) pr)" by simp
    fix t fr p
    assume "t \<in> set (map fst idx)" "map_of f t = Some fr" "p \<in> set (doc_pairs fr)"
    then show "?Q (fst p) (snd p)"
      unfolding set_doc_pairs by fastforce
  qed
qed

text \<open>
  Claim C3, amended: a key of the inverted index is a file name, an internal document
  identifier followed by \<^verbatim>\<open>.json\<close>. For every key, the list under it is not empty, and every
  (reified key, subject) pair in it has an evidence item in the filtered index, under
  that reified key and subject, whose identifier followed by \<^verbatim>\<open>.json\<close> is the key. So a
  document without such an evidence item is no key of the index.
\<close>

theorem inverted_pairs_supported:
  assumes "invert_filtered_relobjs idx f = Inr ir" "(fname, pairs) \<in> set ir"
  shows "pairs \<noteq> []
       \<and> (\<forall>(rk, s) \<in> set pairs. \<exists>t fr entry es e.
            t \<in> fst ` set idx \<and> map_of f t = Some fr \<and> (rk, entry) \<in> set fr
            \<and> (s, es) \<in> set (entry_data entry) \<and> e \<in> set es \<and> item_sha e @ ''.json'' = fname)"
  using inverted_supported[OF assms(1)] assms(2) by fastforce

text \<open>
  Claim C9: every key of the inverted index is the internal document identifier of an
  evidence item of the filtered index with \<^verbatim>\<open>.json\<close> appended, and differs from that
  identifier; and for every evidence item of the filtered index, the lookup
  \<open>convert_file\<close> makes with the file name (identifier and \<^verbatim>\<open>.json\<close>) finds the
  (reified key, subject) pair of the item and lists the subject under the key.
\<close>

theorem inverted_keys_are_file_names:
  assumes "invert_filtered_relobjs idx f = Inr ir"
  shows "(\<forall>fname \<in> fst ` set ir. \<exists>t fr rk entry s es e.
            t \<in> fst ` set idx \<and> map_of f t = Some fr \<and> (rk, entry) \<in> set fr
            \<and> (s, es) \<in> set (entry_data entry) \<and> e \<in> set es
            \<and> fname = item_sha e @ ''.json'' \<and> fname \<noteq> item_sha e)
       \<and> (\<forall>t fr rk entry s es e.
            t \<in> fst ` set idx \<and> map_of f t = Some fr \<and> (rk, entry) \<in> set fr
            \<and> (s, es) \<in> set (entry_data entry) \<and> e \<in> set es
            \<longrightarrow> (rk, s) \<in> set (file_pairs ir (item_sha e @ ''.json''))
              \<and> (\<exists>ss. map_of (convert_file ir (item_sha e @ ''.json'')) rk = Some ss \<and> s \<in> set ss))"
proof (intro conjI ballI allI impI)
  fix fname assume "fname \<in> fst ` set ir"
  then obtain pairs where in_ir: "(fname, pairs) \<in> set ir" by auto
  let ?Q = "\<lambda>fname pr. \<exists>t fr entry es e.
      t \<in> fst ` set idx \<and> map_of f t = Some fr \<and> (fst pr, entry) \<in> set fr
      \<and> (snd pr, es) \<in> set (entry_data entry) \<and> e \<in> set es \<and> item_sha e @ ''.json'' = fname"
  from inverted_supported[OF assms(1)]
  have "\<forall>kp \<in> set ir. snd kp \<noteq> [] \<and> (\<forall>pr \<in> set (snd kp). ?Q (fst kp) pr)" .
  with in_ir obtain pr where "pr \<in> set pairs" "?Q fname pr"
    by (cases pairs) fastforce+
  then show "\<exists>t fr rk entry s es e.
            t \<in> fst ` set idx \<and> map_of f t = Some fr \<and> (rk, entry) \<in> set fr
            \<and> (s, es) \<in> set (entry_data entry) \<and> e \<in> set es
            \<and> fname = item_sha e @ ''.json'' \<and> fname \<noteq> item_sha e"
    by fastforce
next
  fix t fr rk entry s es e
  assume a: "t \<in> fst ` set idx \<and> map_of f t = Some fr \<and> (rk, entry) \<in> set fr
            \<and> (s, es) \<in> set (entry_data entry) \<and> e \<in> set es"
  let ?k = "item_sha e @ ''.json''"
  from a have "(?k, (rk, s)) \<in> set (doc_pairs fr)"
    unfolding set_doc_pairs by blast
  then have mem: "(rk, s) \<in> set (map snd (filter (\<lambda>p. fst p = ?k) (doc_pairs fr)))"
    by force
  let ?F = "\<lambda>t. case map_of f t of None \<Rightarrow> []
                 | Some fr \<Rightarrow> map snd (filter (\<lambda>p. fst p = ?k) (doc_pairs fr))"
  from mem a have "(rk, s) \<in> set (?F t)" by simp
  moreover from a have "t \<in> set (map fst idx)" by simp
  ultimately have "(rk, s) \<in> set (concat (map ?F (map fst idx)))"
    by (simp only: set_concat set_map) blast
  moreover have "file_pairs ir ?k = file_pairs [] ?k @ concat (map ?F (map fst idx))"
    using assms(1) unfolding invert_filtered_relobjs_def by (rule invert_loop_file_pairs)
  ultimately show pr: "(rk, s) \<in> set (file_pairs ir ?k)"
    by (simp add: file_pairs_def)
  have "(case map_of (convert_file ir ?k) rk of None \<Rightarrow> [] | Some ss \<Rightarrow> ss)
      = map snd (filter (\<lambda>p. fst p = rk) (file_pairs ir ?k))"
    unfolding convert_file_def metadata_add_metadata by simp
  moreover have "s \<in> set (map snd (filter (\<lambda>p. fst p = rk) (file_pairs ir ?k)))"
    using pr by force
  ultimately show "\<exists>ss. map_of (convert_file ir ?k) rk = Some ss \<and> s \<in> set ss"
    by (cases "map_of (convert_file ir ?k) rk") auto
qed


section \<open>The stages after the collector\<close>

lemma is_dict_modify [simp]: "is_dict (modify k f m) = is_dict m"
  by (simp add: is_dict_def)

lemma is_dict_setdefault: "is_dict m \<Longrightarrow> is_dict (setdefault k d m)"
  by (auto simp: is_dict_def setdefault_def)

lemma is_dict_extend_at: "is_dict m \<Longrightarrow> is_dict (extend_at k xs m)"
  by (simp add: extend_at_def is_dict_setdefault)

lemma reify_named_ok:
  assumes "reify_named t sub obj evidence idx = Inr idx'" "reified_ok idx"
  shows "reified_ok idx' \<and> map fst idx' = map fst idx"
proof -
  let ?key = "reified_name obj (translate_reltype_into_role t)"
  let ?P = "\<lambda>tr :: string \<times> relobjs. is_dict (snd tr) \<and> list_all (\<lambda>ks. is_dict (snd ks)) (snd tr)"
  from assms(1) have idx': "idx' = modify t
      (\<lambda>ro. modify ?key (extend_at sub (map evidence_dict evidence)) (setdefault ?key [] ro)) idx"
    by (auto simp: reify_named_def Let_def split: option.splits)
  have step: "?P (t, modify ?key (extend_at sub (map evidence_dict evidence)) (setdefault ?key [] ro))"
    if "?P (t, ro)" for ro
  proof -
    have "list_all (\<lambda>ks. is_dict (snd ks))
        (modify ?key (extend_at sub (map evidence_dict evidence)) (setdefault ?key [] ro))"
      using that
      by (intro list_all_modify list_all_setdefault) (simp_all add: is_dict_extend_at, simp add: is_dict_def)
    then show ?thesis using that by (simp add: is_dict_setdefault)
  qed
  have "list_all ?P idx'"
    unfolding idx' using assms(2) step
    by (intro list_all_modify) (simp_all add: reified_ok_def)
  then show ?thesis using assms(2) by (simp add: reified_ok_def idx')
qed

lemma reify_loop_ok:
  "reify_loop rels idx = Inr idx' \<Longrightarrow> reified_ok idx \<Longrightarrow>
   reified_ok idx' \<and> map fst idx' = map fst idx"
proof (induction rels arbitrary: idx)
  case Nil
  then show ?case by simp
next
  case (Cons rel rels)
  from Cons.prems(1) obtain idx1 where s: "reify_rel rel idx = Inr idx1" "reify_loop rels idx1 = Inr idx'"
    by (auto simp: err_bind_def split: sum.splits)
  from s(1) obtain t sub obj ev where rel: "rel = (t, JStr sub, JStr obj, ev)"
    by (cases "(rel, idx)" rule: reify_rel.cases) auto
  with s(1) Cons.prems(2) have "reified_ok idx1 \<and> map fst idx1 = map fst idx"
    by (auto simp: rel dest: reify_named_ok)
  with Cons.IH[OF s(2)] show ?case by simp
qed

lemma reified_ok_empty: "reified_ok (empty_dicts RELTYPES)"
  by (simp add: reified_ok_def empty_dicts_def RELTYPES_def is_dict_def)

lemma map_fst_empty_dicts [simp]: "map fst (empty_dicts rts) = map fst rts"
  by (simp add: empty_dicts_def comp_def)

text \<open>
  The index \<open>reify_relations\<close> returns is a dict on each of its three levels, with the
  four relation types as its keys: the hypothesis \<open>reified_ok\<close> of the theorems on the
  filter holds for it.
\<close>

lemma reify_relations_ok:
  "reify_relations rels = Inr idx \<Longrightarrow> reified_ok idx \<and> map fst idx = map fst RELTYPES"
  unfolding reify_relations_def using reify_loop_ok[OF _ reified_ok_empty] by fastforce

lemma filter_relobjs_of_total:
  "t \<in> fst ` set f \<Longrightarrow> \<exists>f'. filter_relobjs_of t ro f = Inr f'"
proof (induction ro arbitrary: f)
  case Nil
  then show ?case by simp
next
  case (Cons ks ro)
  obtain k sm where ks: "ks = (k, sm)" by (cases ks)
  from Cons.prems obtain fr where fr: "map_of f t = Some fr"
    by (metis domD dom_map_of_conv_image_fst)
  have "t \<in> fst ` set (modify t (keep_relobj k sm) f)"
    using Cons.prems by (metis list.set_map map_fst_modify)
  from Cons.IH[OF this] Cons.IH[OF Cons.prems] show ?case by (simp add: ks fr)
qed

lemma filter_loop_total:
  "fst ` set idx \<subseteq> fst ` set f \<Longrightarrow> \<exists>f'. filter_loop idx f = Inr f'"
proof (induction idx arbitrary: f)
  case Nil
  then show ?case by simp
next
  case (Cons tr idx)
  obtain t ro where tr: "tr = (t, ro)" by (cases tr)
  from Cons.prems have "t \<in> fst ` set f" by (simp add: tr)
  from filter_relobjs_of_total[OF this] obtain f1 where f1: "filter_relobjs_of t ro f = Inr f1"
    by blast
  then have "map fst f1 = map fst f" by (rule filter_relobjs_of_keys)
  then have "fst ` set f1 = fst ` set f" by (metis list.set_map)
  with Cons.prems have "fst ` set idx \<subseteq> fst ` set f1" by (simp add: tr)
  from Cons.IH[OF this] show ?case by (simp add: tr f1 err_bind_def)
qed

lemma filter_loop_keys: "filter_loop idx f = Inr f' \<Longrightarrow> map fst f' = map fst f"
proof (induction idx arbitrary: f)
  case Nil
  then show ?case by simp
next
  case (Cons tr idx)
  obtain t ro where tr: "tr = (t, ro)" by (cases tr)
  from Cons.prems obtain f1 where f1: "filter_relobjs_of t ro f = Inr f1" "filter_loop idx f1 = Inr f'"
    by (auto simp: tr err_bind_def split: sum.splits)
  from Cons.IH[OF f1(2)] filter_relobjs_of_keys[OF f1(1)] show ?case by simp
qed

lemma invert_loop_total:
  "set ts \<subseteq> fst ` set f \<Longrightarrow> \<exists>ir'. invert_loop ts f ir = Inr ir'"
proof (induction ts arbitrary: ir)
  case Nil
  then show ?case by simp
next
  case (Cons t ts)
  from Cons.prems obtain fr where fr: "map_of f t = Some fr"
    by (metis domD dom_map_of_conv_image_fst list.set_intros(1) subsetD)
  from Cons.prems have "set ts \<subseteq> fst ` set f" by simp
  from Cons.IH[OF this] show ?case by (simp add: fr)
qed

text \<open>On such an index neither the filter nor the inverter raises.\<close>

lemma indexes_total:
  assumes "reify_relations rels = Inr idx"
  shows "\<exists>f ir. filter_relobjs idx = Inr f \<and> invert_filtered_relobjs idx f = Inr ir"
proof -
  from reify_relations_ok[OF assms] have keys: "map fst idx = map fst RELTYPES" by simp
  then have "fst ` set idx = fst ` set RELTYPES" by (metis list.set_map)
  then have "fst ` set idx \<subseteq> fst ` set (empty_dicts RELTYPES :: filtered)"
    by (metis list.set_map map_fst_empty_dicts order_refl)
  from filter_loop_total[OF this] obtain f where f: "filter_relobjs idx = Inr f"
    by (auto simp: filter_relobjs_def)
  then have "map fst f = map fst RELTYPES"
    unfolding filter_relobjs_def by (drule_tac filter_loop_keys) simp
  then have "set (map fst idx) \<subseteq> fst ` set f" using keys by (metis list.set_map order_refl)
  from invert_loop_total[OF this] f show ?thesis
    by (auto simp: invert_filtered_relobjs_def)
qed

lemma collect_record_type:
  "collect_record md result = Inr (Some rel) \<Longrightarrow> fst rel \<in> set target_relations"
  by (auto simp: collect_record_def collect_named_def err_bind_def
      split: sum.splits json.splits if_splits option.splits)

lemma collect_loop_types:
  "collect_loop md rs = Inr rels \<Longrightarrow> \<forall>rel \<in> set rels. fst rel \<in> set target_relations"
proof (induction rs arbitrary: rels)
  case Nil
  then show ?case by simp
next
  case (Cons r rs)
  from Cons.prems obtain x rest where x: "collect_record md r = Inr x" "collect_loop md rs = Inr rest"
    "rels = (case x of None \<Rightarrow> rest | Some rel \<Rightarrow> rel # rest)"
    by (auto simp: err_bind_def split: sum.splits)
  from Cons.IH[OF x(2)] collect_record_type[of md r] x(1) show ?case
    by (auto simp: x(3) split: option.splits)
qed

lemma reify_loop_errors:
  "reify_loop rels idx = Inl err \<Longrightarrow> map fst idx = map fst RELTYPES \<Longrightarrow> reified_ok idx \<Longrightarrow>
   \<forall>rel \<in> set rels. fst rel \<in> set target_relations \<Longrightarrow> err = NotModelled"
proof (induction rels arbitrary: idx)
  case Nil
  then show ?case by simp
next
  case (Cons rel rels)
  obtain t sub obj ev where rel: "rel = (t, sub, obj, ev)" by (cases rel)
  from Cons.prems(4) have "t \<in> fst ` set RELTYPES"
    by (simp add: rel target_relations_def RELTYPES_def)
  then have "t \<in> fst ` set idx" using Cons.prems(2) by (metis list.set_map)
  then obtain ro where ro: "map_of idx t = Some ro"
    by (metis domD dom_map_of_conv_image_fst)
  show ?case
  proof (cases "reify_rel rel idx")
    case (Inl e)
    then have "e = NotModelled"
      by (cases "(rel, idx)" rule: reify_rel.cases) (auto simp: rel reify_named_def ro Let_def)
    with Cons.prems(1) Inl show ?thesis by (simp add: err_bind_def)
  next
    case (Inr idx1)
    then obtain s ob where "rel = (t, JStr s, JStr ob, ev)"
      by (cases "(rel, idx)" rule: reify_rel.cases) (auto simp: rel)
    with Inr Cons.prems(3) have "reified_ok idx1 \<and> map fst idx1 = map fst idx"
      by (auto dest: reify_named_ok)
    with Cons.IH[of idx1] Cons.prems Inr show ?thesis by (simp add: err_bind_def)
  qed
qed

text \<open>
  So \<open>convert\<close> raises what \<open>collect_relations\<close> raises and nothing else, inside the
  model (names that are strings).
\<close>

lemma convert_errors:
  "convert self = Inl err \<Longrightarrow>
   collect_relations (metadata self) 100000 (results self) = Inl err \<or> err = NotModelled"
proof -
  assume c: "convert self = Inl err"
  show ?thesis
  proof (cases "collect_relations (metadata self) 100000 (results self)")
    case (Inl e)
    with c show ?thesis by (simp add: convert_def err_bind_def)
  next
    case (Inr rels)
    then have types: "\<forall>rel \<in> set rels. fst rel \<in> set target_relations"
      unfolding collect_relations_def by (rule collect_loop_types)
    show ?thesis
    proof (cases "reify_relations rels")
      case (Inl e)
      then have "e = NotModelled"
        unfolding reify_relations_def
        using reified_ok_empty types by (intro reify_loop_errors) simp_all
      with c Inr Inl show ?thesis by (simp add: convert_def err_bind_def)
    next
      case reified: (Inr idx)
      from indexes_total[OF this] c Inr reified show ?thesis
        by (auto simp: convert_def err_bind_def)
    qed
  qed
qed

section \<open>The example run\<close>




lemma collected_invert:
  "invert_filtered_relobjs collected_reified collected_filtered = Inr collected_inverted"
  by code_simp




text \<open>
  The hypotheses of the amended C3 hold for the indexes computed from the example records.
\<close>

theorem inverted_pairs_supported_witness:
  "invert_filtered_relobjs collected_reified collected_filtered = Inr collected_inverted
   \<and> (''s1.json'', replicate 25 (''TNF-increaser'', ''IL6'')) \<in> set collected_inverted
   \<and> replicate 25 (''TNF-increaser'', ''IL6'') \<noteq> []
   \<and> (\<exists>t fr entry es e.
        t \<in> fst ` set collected_reified \<and> map_of collected_filtered t = Some fr
        \<and> (''TNF-increaser'', entry) \<in> set fr \<and> (''IL6'', es) \<in> set (entry_data entry)
        \<and> e \<in> set es \<and> item_sha e @ ''.json'' = ''s1.json'')"
proof -
  have m: "(''s1.json'', replicate 25 (''TNF-increaser'', ''IL6'')) \<in> set collected_inverted"
    by (simp add: collected_inverted_def)
  have "(''TNF-increaser'', ''IL6'') \<in> set (replicate 25 (''TNF-increaser'', ''IL6''))"
    by simp
  with inverted_pairs_supported [OF collected_invert m] collected_invert m
  show ?thesis by blast
qed

text \<open>
  Claim C3, as stated, fails: the inverted index of the example has the single key
  \<^verbatim>\<open>s1.json\<close>, and no evidence item of the filtered index has this key as its internal
  document identifier (the identifier of every item is \<^verbatim>\<open>s1\<close>).
\<close>

theorem inverted_key_not_document_id:
  "invert_filtered_relobjs collected_reified collected_filtered = Inr collected_inverted
   \<and> \<not> (\<forall>kp \<in> set collected_inverted. \<forall>pr \<in> set (snd kp). \<exists>t fr entry es e.
        t \<in> fst ` set collected_reified \<and> map_of collected_filtered t = Some fr
        \<and> (fst pr, entry) \<in> set fr \<and> (snd pr, es) \<in> set (entry_data entry)
        \<and> e \<in> set es \<and> item_sha e = fst kp)"
proof -
  have "item_sha e \<noteq> ''s1.json''"
    if "map_of collected_filtered t = Some fr" "(rk, entry) \<in> set fr"
      "(s, es) \<in> set (entry_data entry)" "e \<in> set es" for t fr rk entry s es e
    using that
    by (auto simp: collected_filtered_def example_items_def split: if_splits)
  then have "\<not> (\<forall>kp \<in> set collected_inverted. \<forall>pr \<in> set (snd kp). \<exists>t fr entry es e.
        t \<in> fst ` set collected_reified \<and> map_of collected_filtered t = Some fr
        \<and> (fst pr, entry) \<in> set fr \<and> (snd pr, es) \<in> set (entry_data entry)
        \<and> e \<in> set es \<and> item_sha e = fst kp)"
    by (auto simp: collected_inverted_def)
  with collected_invert show ?thesis by blast
qed

text \<open>
  The hypothesis of C9 holds for the indexes computed from the example records; the
  lookup with the bare identifier \<^verbatim>\<open>s1\<close> finds nothing.
\<close>

theorem inverted_keys_are_file_names_witness:
  "invert_filtered_relobjs collected_reified collected_filtered = Inr collected_inverted
   \<and> ''s1.json'' \<in> fst ` set collected_inverted
   \<and> (\<exists>t fr rk entry s es e.
        t \<in> fst ` set collected_reified \<and> map_of collected_filtered t = Some fr
        \<and> (rk, entry) \<in> set fr \<and> (s, es) \<in> set (entry_data entry) \<and> e \<in> set es
        \<and> ''s1.json'' = item_sha e @ ''.json'' \<and> ''s1.json'' \<noteq> item_sha e)
   \<and> file_pairs collected_inverted ''s1.json'' = replicate 25 (''TNF-increaser'', ''IL6'')
   \<and> file_pairs collected_inverted ''s1'' = []
   \<and> convert_file collected_inverted ''s1.json'' = [(''TNF-increaser'', replicate 25 ''IL6'')]"
proof -
  have "''s1.json'' \<in> fst ` set collected_inverted"
    by (simp add: collected_inverted_def)
  moreover have "file_pairs collected_inverted ''s1.json'' = replicate 25 (''TNF-increaser'', ''IL6'')"
    "file_pairs collected_inverted ''s1'' = []"
    "convert_file collected_inverted ''s1.json'' = [(''TNF-increaser'', replicate 25 ''IL6'')]"
    by code_simp+
  ultimately show ?thesis
    using inverted_keys_are_file_names [OF collected_invert] collected_invert
    by blast
qed

end
